theory Spec2Isabelle
  imports Main
begin

section \<open>JavaScript strings\<close>

text \<open>
  A JavaScript string is a sequence of UTF-16 code units; \<open>length\<close>, \<open>substring\<close>,
  regular expressions without the \<open>u\<close> flag and \<open>trim\<close> all work on code units.
  A code unit is modelled by its numeric value.
\<close>

type_synonym jsstring = "nat list"

text \<open>ASCII literals of the source are written as HOL strings and converted.\<close>

definition js :: "string \<Rightarrow> jsstring" where
  "js s = map of_char s"

text \<open>
  The class \<open>\s\<close> of a regular expression, which is also the set of code units that
  \<open>String.prototype.trim\<close> strips (WhiteSpace and LineTerminator of ECMAScript):
  TAB, LF, VT, FF, CR, SP, NBSP, U+1680, U+2000..U+200A, U+2028, U+2029, U+202F,
  U+205F, U+3000, U+FEFF.
\<close>

definition is_ws :: "nat \<Rightarrow> bool" where
  "is_ws c \<longleftrightarrow>
     (9 \<le> c \<and> c \<le> 13) \<or> c = 32 \<or> c = 160 \<or> c = 5760 \<or> (8192 \<le> c \<and> c \<le> 8202) \<or>
     c = 8232 \<or> c = 8233 \<or> c = 8239 \<or> c = 8287 \<or> c = 12288 \<or> c = 65279"

definition trim :: "jsstring \<Rightarrow> jsstring" where
  "trim s = rev (dropWhile is_ws (rev (dropWhile is_ws s)))"

text \<open>The units of a string that are not white space, in order.\<close>

definition non_ws :: "jsstring \<Rightarrow> jsstring" where
  "non_ws s = filter (\<lambda>c. \<not> is_ws c) s"

definition is_digit :: "nat \<Rightarrow> bool" where
  "is_digit c \<longleftrightarrow> 48 \<le> c \<and> c \<le> 57"

text \<open>
  Canonicalisation of a code unit under the \<open>i\<close> flag (no \<open>u\<close> flag): the upper-case
  form, except that a non-ASCII unit is never mapped to an ASCII one. The patterns of
  the source only have ASCII letters, so only the ASCII part of the mapping decides a
  comparison; other units are left as they are.
\<close>

definition canonicalize :: "nat \<Rightarrow> nat" where
  "canonicalize c = (if 97 \<le> c \<and> c \<le> 122 then c - 32 else c)"

section \<open>Regular expressions\<close>

text \<open>
  The regular expressions of the source use single code units and classes, quantifiers
  on classes only, sequence, alternation, capturing groups, anchors and one look-behind.
\<close>

datatype cclass =
    Unit nat
  | UnitI nat
  | Space
  | Digit
  | AnyUnit
  | OneOf "nat list"
  | NoneOf "nat list"

fun in_class :: "cclass \<Rightarrow> nat \<Rightarrow> bool" where
  "in_class (Unit u) c = (c = u)"
| "in_class (UnitI u) c = (canonicalize c = canonicalize u)"
| "in_class Space c = is_ws c"
| "in_class Digit c = is_digit c"
| "in_class AnyUnit c = True"
| "in_class (OneOf us) c = (c \<in> set us)"
| "in_class (NoneOf us) c = (c \<notin> set us)"

datatype regex =
    Eps
  | One cclass
  | Star cclass
  | Plus cclass
  | LazyStar cclass
  | Seq regex regex
  | Alt regex regex
  | Group regex
  | Bos
  | Eos
  | Bol
  | Behind cclass

text \<open>
  A matcher state: the input to the left of the current position (reversed, nearest
  unit first), the input from the current position on, and the captures closed so far.
\<close>

type_synonym mstate = "jsstring \<times> jsstring \<times> jsstring list"

text \<open>
  The backtracking matcher returns every way to match, in the order in which the
  backtracking search of ECMAScript tries them; the first one is the match.
\<close>

fun star_greedy :: "cclass \<Rightarrow> mstate \<Rightarrow> mstate list" where
  "star_greedy c (l, [], g) = [(l, [], g)]"
| "star_greedy c (l, x # r, g) =
     (if in_class c x then star_greedy c (x # l, r, g) @ [(l, x # r, g)]
      else [(l, x # r, g)])"

fun star_lazy :: "cclass \<Rightarrow> mstate \<Rightarrow> mstate list" where
  "star_lazy c (l, [], g) = [(l, [], g)]"
| "star_lazy c (l, x # r, g) =
     (l, x # r, g) # (if in_class c x then star_lazy c (x # l, r, g) else [])"

definition is_line_terminator :: "nat \<Rightarrow> bool" where
  "is_line_terminator c \<longleftrightarrow> c = 10 \<or> c = 13 \<or> c = 8232 \<or> c = 8233"

fun run :: "regex \<Rightarrow> mstate \<Rightarrow> mstate list" where
  "run Eps s = [s]"
| "run (One c) (l, r, g) =
     (case r of [] \<Rightarrow> [] | x # r' \<Rightarrow> if in_class c x then [(x # l, r', g)] else [])"
| "run (Star c) s = star_greedy c s"
| "run (Plus c) (l, r, g) =
     (case r of [] \<Rightarrow> [] | x # r' \<Rightarrow> if in_class c x then star_greedy c (x # l, r', g) else [])"
| "run (LazyStar c) s = star_lazy c s"
| "run (Seq a b) s = concat (map (run b) (run a s))"
| "run (Alt a b) s = run a s @ run b s"
| "run (Group a) (l, r, g) =
     map (\<lambda>(l', r', g'). (l', r', g' @ [take (length r - length r') r])) (run a (l, r, g))"
| "run Bos (l, r, g) = (if l = [] then [(l, r, g)] else [])"
| "run Eos (l, r, g) = (if r = [] then [(l, r, g)] else [])"
| "run Bol (l, r, g) =
     (case l of [] \<Rightarrow> [(l, r, g)] | x # _ \<Rightarrow> if is_line_terminator x then [(l, r, g)] else [])"
| "run (Behind c) (l, r, g) =
     (case l of [] \<Rightarrow> [] | x # _ \<Rightarrow> if in_class c x then [(l, r, g)] else [])"

fun seqs :: "regex list \<Rightarrow> regex" where
  "seqs [] = Eps"
| "seqs (a # as) = Seq a (seqs as)"

definition lit :: "jsstring \<Rightarrow> regex" where
  "lit s = seqs (map (\<lambda>u. One (Unit u)) s)"

definition lit_i :: "jsstring \<Rightarrow> regex" where
  "lit_i s = seqs (map (\<lambda>u. One (UnitI u)) s)"

text \<open>The match of a regular expression at one position, if any.\<close>

definition match_at :: "regex \<Rightarrow> jsstring \<Rightarrow> jsstring \<Rightarrow> mstate option" where
  "match_at rx l r = (case run rx (l, r, []) of [] \<Rightarrow> None | m # _ \<Rightarrow> Some m)"

text \<open>
  \<open>str.match(rx)\<close> for a regular expression without the \<open>g\<close> flag: the first position,
  from the left, at which it matches; the result here is the list of captures
  (\<open>m[1]\<close>, \<open>m[2]\<close>, ...), \<open>None\<close> for \<open>null\<close>.
\<close>

fun search :: "regex \<Rightarrow> jsstring \<Rightarrow> jsstring \<Rightarrow> mstate option" where
  "search rx l [] = match_at rx l []"
| "search rx l (x # r) =
     (case match_at rx l (x # r) of Some m \<Rightarrow> Some m | None \<Rightarrow> search rx (x # l) r)"

definition js_match :: "regex \<Rightarrow> jsstring \<Rightarrow> jsstring list option" where
  "js_match rx s = map_option (\<lambda>(l, r, g). g) (search rx [] s)"

section \<open>The command classifier\<close>

datatype command =
    Topic jsstring
  | Script jsstring
  | Visuals jsstring
  | Voice jsstring
  | VoicePerson jsstring jsstring
  | Agenda
  | Number nat

text \<open>\<open>/^topic\s*:\s*([\s\S]+)$/i\<close> and its siblings for script, visuals and voice.\<close>

definition keyword_rx :: "string \<Rightarrow> regex" where
  "keyword_rx kw =
     seqs [Bos, lit_i (js kw), Star Space, One (Unit 58), Star Space, Group (Plus AnyUnit), Eos]"

text \<open>\<open>/^voice\s+([^:]+)\s*:\s*([\s\S]+)$/i\<close>\<close>

definition voice_person_rx :: regex where
  "voice_person_rx =
     seqs [Bos, lit_i (js ''voice''), Plus Space, Group (Plus (NoneOf [58])), Star Space,
           One (Unit 58), Star Space, Group (Plus AnyUnit), Eos]"

text \<open>\<open>/^agenda$/i\<close> and \<open>/^(\d+)$/\<close>\<close>

definition agenda_rx :: regex where
  "agenda_rx = seqs [Bos, lit_i (js ''agenda''), Eos]"

definition number_rx :: regex where
  "number_rx = seqs [Bos, Group (Plus Digit), Eos]"

text \<open>
  \<open>parseInt\<close> of a string of decimal digits. The source compares the result with 1 and
  10 only, where the exact value and its double-precision rounding agree.
\<close>

definition parseInt :: "jsstring \<Rightarrow> nat" where
  "parseInt ds = foldl (\<lambda>n d. 10 * n + (d - 48)) 0 ds"

definition parseCommand :: "jsstring \<Rightarrow> command option" where
  "parseCommand messageText =
     (let text = trim messageText in
      case js_match (keyword_rx ''topic'') text of
        Some m \<Rightarrow> Some (Topic (trim (m ! 0)))
      | None \<Rightarrow>
      (case js_match (keyword_rx ''script'') text of
        Some m \<Rightarrow> Some (Script (trim (m ! 0)))
      | None \<Rightarrow>
      (case js_match (keyword_rx ''visuals'') text of
        Some m \<Rightarrow> Some (Visuals (trim (m ! 0)))
      | None \<Rightarrow>
      (case js_match voice_person_rx text of
        Some m \<Rightarrow> Some (VoicePerson (trim (m ! 0)) (trim (m ! 1)))
      | None \<Rightarrow>
      (case js_match (keyword_rx ''voice'') text of
        Some m \<Rightarrow> Some (Voice (trim (m ! 0)))
      | None \<Rightarrow>
      (case js_match agenda_rx text of
        Some m \<Rightarrow> Some Agenda
      | None \<Rightarrow>
      (case js_match number_rx text of
        Some m \<Rightarrow>
          (let num = parseInt (m ! 0) in
           if num \<ge> 1 \<and> num \<le> 10 then Some (Number num) else None)
      | None \<Rightarrow> None)))))))"

section \<open>Splitting a string on a regular expression\<close>

text \<open>
  \<open>str.split(rx)\<close>: the matcher is tried at each position \<open>q\<close> in turn; a match
  that ends after the start \<open>p\<close> of the current piece closes the piece, and the
  captures of the match are spliced in after it. A match that ends at \<open>p\<close> (an empty
  match at the start of a piece) is skipped. The last piece runs to the end of the input.
  \<open>piece\<close> holds the units from \<open>p\<close> to \<open>q\<close>, reversed.
\<close>

function split_loop :: "regex \<Rightarrow> jsstring \<Rightarrow> jsstring \<Rightarrow> jsstring \<Rightarrow> jsstring list" where
  "split_loop rx l piece [] = [rev piece]"
| "split_loop rx l piece (x # r) =
     (case match_at rx l (x # r) of
        None \<Rightarrow> split_loop rx (x # l) (x # piece) r
      | Some (l', r', caps) \<Rightarrow>
          if length r' < length (x # r) then rev piece # caps @ split_loop rx l' [] r'
          else if piece = [] then split_loop rx (x # l) (x # piece) r
          else rev piece # caps @ split_loop rx l [] (x # r))"
  by pat_completeness auto
termination
  by (relation "measures [\<lambda>(rx, l, piece, r). length r, \<lambda>(rx, l, piece, r). length piece]") auto

definition js_split :: "regex \<Rightarrow> jsstring \<Rightarrow> jsstring list" where
  "js_split rx s =
     (if s = [] then (if match_at rx [] [] = None then [[]] else [])
      else split_loop rx [] [] s)"

section \<open>The chunker for speech synthesis\<close>

definition minChunkSize :: nat where "minChunkSize = 1050"
definition targetChunkSize :: nat where "targetChunkSize = 1200"
definition maxChunkSize :: nat where "maxChunkSize = 1650"

text \<open>\<open>/\n\s*\n/\<close>, and \<open>/([\<dots>])/\<close> with U+06D4, U+061F and the exclamation mark.\<close>

definition paragraph_rx :: regex where
  "paragraph_rx = seqs [One (Unit 10), Star Space, One (Unit 10)]"

definition sentence_rx :: regex where
  "sentence_rx = Group (One (OneOf [1748, 1567, 33]))"

text \<open>
  The loops over \<open>sentences\<close> step by two and read
  \<open>sentences[i] + (sentences[i + 1] || '')\<close>: a piece with the terminator that follows
  it, or the last piece alone.
\<close>

fun sentence_units :: "jsstring list \<Rightarrow> jsstring list" where
  "sentence_units [] = []"
| "sentence_units [a] = [a]"
| "sentence_units (a # b # rest) = (a @ b) # sentence_units rest"

text \<open>
  The inner loop of the sentence-boundary split: \<open>bestBreakPoint\<close> grows by one
  sentence at a time; the first time its length is within the minimum and the maximum,
  the sentences that remain are the remainder. \<open>None\<close> when the loop ends without a
  break.
\<close>

fun find_break :: "jsstring \<Rightarrow> jsstring list \<Rightarrow> (jsstring \<times> jsstring) option" where
  "find_break bestBreakPoint [] = None"
| "find_break bestBreakPoint (sentence # rest) =
     (let best = bestBreakPoint @ sentence in
      if length best \<ge> minChunkSize \<and> length best \<le> maxChunkSize
      then Some (best, concat rest)
      else find_break best rest)"

text \<open>
  The body of the loop over the paragraphs, on the pair \<open>(chunks, currentChunk)\<close>.
  Its first statement adds the paragraph to the current chunk, after closing the chunk
  when the paragraph would take it over the maximum and it has the minimum size.
\<close>

definition add_paragraph :: "jsstring \<Rightarrow> jsstring list \<times> jsstring \<Rightarrow> jsstring list \<times> jsstring" where
  "add_paragraph paragraph st =
     (case st of (chunks, currentChunk) \<Rightarrow>
        if length currentChunk > 0 \<and> length currentChunk + length paragraph > maxChunkSize
        then (if length currentChunk \<ge> minChunkSize
              then (chunks @ [trim currentChunk], paragraph)
              else (chunks, currentChunk @ [10, 10] @ paragraph))
        else if length currentChunk = 0 then (chunks, paragraph)
        else (chunks, currentChunk @ [10, 10] @ paragraph))"

text \<open>
  Its second statement is the boundary detection; \<open>notLast\<close> is
  \<open>paragraphIndex < paragraphs.length - 1\<close>.
\<close>

definition detect_boundary :: "bool \<Rightarrow> jsstring list \<times> jsstring \<Rightarrow> jsstring list \<times> jsstring" where
  "detect_boundary notLast st =
     (case st of (chunks, currentChunk) \<Rightarrow>
        if length currentChunk \<ge> minChunkSize
        then (if length currentChunk \<ge> targetChunkSize \<and> notLast
              then (chunks @ [trim currentChunk], [])
              else if length currentChunk \<ge> maxChunkSize - 200 \<and> notLast
              then (case find_break [] (sentence_units (js_split sentence_rx currentChunk)) of
                      Some (bestBreakPoint, remainder) \<Rightarrow>
                        (chunks @ [trim bestBreakPoint], trim remainder)
                    | None \<Rightarrow> (chunks, currentChunk))
              else (chunks, currentChunk))
        else (chunks, currentChunk))"

fun paragraph_loop :: "jsstring list \<Rightarrow> jsstring list \<times> jsstring \<Rightarrow> jsstring list \<times> jsstring" where
  "paragraph_loop [] st = st"
| "paragraph_loop (p # ps) st =
     (if trim p = [] then paragraph_loop ps st
      else paragraph_loop ps (detect_boundary (ps \<noteq> []) (add_paragraph (trim p) st)))"

text \<open>The body and the loop of the sentence-only fallback.\<close>

definition add_sentence :: "jsstring \<Rightarrow> jsstring list \<times> jsstring \<Rightarrow> jsstring list \<times> jsstring" where
  "add_sentence sentence st =
     (case st of (chunks, currentChunk) \<Rightarrow>
        if length currentChunk > 0 \<and> length currentChunk + length sentence > maxChunkSize
        then (chunks @ [trim currentChunk], sentence)
        else (chunks, currentChunk @ sentence))"

definition close_at_target :: "jsstring list \<times> jsstring \<Rightarrow> jsstring list \<times> jsstring" where
  "close_at_target st =
     (case st of (chunks, currentChunk) \<Rightarrow>
        if length currentChunk \<ge> targetChunkSize then (chunks @ [trim currentChunk], [])
        else (chunks, currentChunk))"

fun sentence_loop :: "jsstring list \<Rightarrow> jsstring list \<times> jsstring \<Rightarrow> jsstring list \<times> jsstring" where
  "sentence_loop [] st = st"
| "sentence_loop (sentence # rest) st = sentence_loop rest (close_at_target (add_sentence sentence st))"

text \<open>
  What is left in \<open>currentChunk\<close> after a loop is pushed when it has content
  (\<open>if (currentChunk.trim()) chunks.push(currentChunk.trim())\<close>).
\<close>

definition push_rest :: "jsstring list \<times> jsstring \<Rightarrow> jsstring list" where
  "push_rest st = (case st of (chunks, currentChunk) \<Rightarrow>
     if trim currentChunk \<noteq> [] then chunks @ [trim currentChunk] else chunks)"

text \<open>The length of the longest paragraph of a script, each paragraph trimmed as the loop
  does.\<close>

definition longest_paragraph :: "jsstring \<Rightarrow> nat" where
  "longest_paragraph script =
     foldr max (map (\<lambda>p. length (trim p)) (js_split paragraph_rx script)) 0"

text \<open>The text, white space apart, that a loop state holds: the chunks made so far and the
  current chunk.\<close>

definition held :: "jsstring list \<times> jsstring \<Rightarrow> jsstring" where
  "held st = non_ws (concat (fst st) @ snd st)"

definition splitScriptIntoChunks :: "jsstring \<Rightarrow> jsstring list" where
  "splitScriptIntoChunks script =
     (if script = [] then []
      else
        let chunks1 = push_rest (paragraph_loop (js_split paragraph_rx script) ([], []));
            chunks2 =
              (if chunks1 = [] \<and> length script > maxChunkSize
               then push_rest (sentence_loop (sentence_units (js_split sentence_rx script)) (chunks1, []))
               else chunks1)
        in if chunks2 = [] then [script] else chunks2)"

section \<open>The distribution chunker\<close>

text \<open>\<open>/(?<=[\<dots>])\s+/\<close> with U+06D4, the exclamation mark and the question mark.\<close>

definition chunk_rx :: regex where
  "chunk_rx = seqs [Behind (OneOf [1748, 33, 63]), Plus Space]"

text \<open>The body of the loop of \<open>chunkText\<close> over the sentences, and the loop.\<close>

definition add_to_chunk :: "nat \<Rightarrow> jsstring \<Rightarrow> jsstring list \<times> jsstring \<Rightarrow> jsstring list \<times> jsstring" where
  "add_to_chunk maxSize sentence st =
     (case st of (chunks, currentChunk) \<Rightarrow>
        let (chunks1, cur1) =
              (if length currentChunk + length sentence > maxSize
               then (if currentChunk \<noteq> [] then (chunks @ [trim currentChunk], [])
                     else (chunks, currentChunk))
               else (chunks, currentChunk))
        in (chunks1, cur1 @ sentence @ [32]))"

fun chunkText_loop :: "nat \<Rightarrow> jsstring list \<Rightarrow> jsstring list \<times> jsstring \<Rightarrow> jsstring list \<times> jsstring" where
  "chunkText_loop maxSize [] st = st"
| "chunkText_loop maxSize (sentence # rest) st =
     chunkText_loop maxSize rest (add_to_chunk maxSize sentence st)"

definition chunkText :: "jsstring \<Rightarrow> nat \<Rightarrow> jsstring list" where
  "chunkText text maxSize =
     (let chunks = push_rest (chunkText_loop maxSize (js_split chunk_rx text) ([], []))
      in if length chunks > 0 then chunks else [text])"

section \<open>Replacing matches\<close>

text \<open>
  \<open>str.replace(rx, '')\<close> without the \<open>g\<close> flag removes the first match, searched
  from the left; with the \<open>g\<close> flag it removes every match, each search starting where
  the match before it ended (one unit further after an empty match).
\<close>

fun remove_first :: "regex \<Rightarrow> jsstring \<Rightarrow> jsstring \<Rightarrow> jsstring" where
  "remove_first rx l [] = []"
| "remove_first rx l (x # r) =
     (case match_at rx l (x # r) of
        Some (l', r', caps) \<Rightarrow> r'
      | None \<Rightarrow> x # remove_first rx (x # l) r)"

function remove_all :: "regex \<Rightarrow> jsstring \<Rightarrow> jsstring \<Rightarrow> jsstring" where
  "remove_all rx l [] = []"
| "remove_all rx l (x # r) =
     (case match_at rx l (x # r) of
        Some (l', r', caps) \<Rightarrow>
          if length r' < length (x # r) then remove_all rx l' r'
          else x # remove_all rx (x # l) r
      | None \<Rightarrow> x # remove_all rx (x # l) r)"
  by pat_completeness auto
termination
  by (relation "measure (\<lambda>(rx, l, r). length r)") auto

section \<open>Extracting the script from a generated text\<close>

text \<open>
  The three patterns tried in turn, all with the \<open>i\<close> flag; the first begins with
  U+1F4DD, two code units. Then \<open>/^\s*---\s*/gm\<close>.
\<close>

definition script_rx1 :: regex where
  "script_rx1 =
     seqs [lit_i [55357, 56541], Star Space, lit_i (js ''**Vision Point Script**''),
           Group (LazyStar AnyUnit), Alt (lit_i (js ''---'')) Eos]"

definition script_rx2 :: regex where
  "script_rx2 =
     seqs [lit_i (js ''**Vision Point Script**''), Group (LazyStar AnyUnit),
           Alt (lit_i (js ''---'')) Eos]"

definition script_rx3 :: regex where
  "script_rx3 =
     seqs [lit_i (js ''Vision Point Script''), Group (LazyStar AnyUnit),
           Alt (lit_i (js ''---'')) Eos]"

definition rule_rx :: regex where
  "rule_rx = seqs [Bol, Star Space, lit (js ''---''), Star Space]"

text \<open>The result is the pair \<open>(script, visuals)\<close>; \<open>visuals\<close> is always empty.\<close>

definition extractScriptAndVisuals :: "jsstring \<Rightarrow> jsstring \<times> jsstring" where
  "extractScriptAndVisuals response =
     (let scriptMatch =
            (case js_match script_rx1 response of
               Some m \<Rightarrow> m
             | None \<Rightarrow>
            (case js_match script_rx2 response of
               Some m \<Rightarrow> m
             | None \<Rightarrow>
            (case js_match script_rx3 response of
               Some m \<Rightarrow> m
             | None \<Rightarrow> [response])));
          script = trim (scriptMatch ! 0)
      in (if script \<noteq> [] then trim (remove_all rule_rx [] script) else script, []))"

section \<open>State, services and outbound messages\<close>

type_synonym bytes = "nat list"

text \<open>
  What \<open>sock.sendMessage\<close> is called with: a text, an audio payload with its
  push-to-talk flag, or a reaction (emoji) to a message; the first argument is the
  destination.
\<close>

datatype delivery =
    TextDelivery jsstring jsstring
  | AudioDelivery jsstring bytes bool
  | ReactionDelivery jsstring jsstring jsstring

record headline_session =
  headlines :: "jsstring list"
  timestamp :: int

text \<open>
  The mutable state of the process: the group identifiers, the headline store
  \<open>currentHeadlines\<close>, and two logs of what went out, in order: the messages handed to
  the transport and the prompts submitted to the text service.
\<close>

record world =
  groupJIDs_content :: jsstring
  groupJIDs_demoScript :: jsstring
  groupJIDs_demoVisual :: jsstring
  currentHeadlines :: "jsstring \<rightharpoonup> headline_session"
  sent :: "delivery list"
  asked :: "jsstring list"

text \<open>
  The external services, as what they answer: the chat-completion endpoint gives the
  content of its first choice for a prompt, the speech endpoint the audio for a voice
  and a text, the voices endpoint the names and identifiers of the voices, the transport
  the audio attached to a message; \<open>None\<close> is a request that throws or gives nothing.
  Each is asked once per request and never retried. The last field is not a service but
  the runtime: what \<open>String.prototype.toLowerCase\<close> gives for a string that has units
  outside ASCII, where the case mapping is that of Unicode.
\<close>

record services =
  chat_completion :: "jsstring \<Rightarrow> jsstring option"
  text_to_speech :: "jsstring \<Rightarrow> jsstring \<Rightarrow> bytes option"
  list_voices :: "(jsstring \<times> jsstring) list option"
  download_media :: "jsstring \<Rightarrow> bytes option"
  lower_case :: "jsstring \<Rightarrow> jsstring"

text \<open>
  The fixed texts of the source that no claim depends on are parameters: the master
  prompt, the template of the prompt for visuals (a function of the content, which the
  source interpolates twice), the prompt for headlines, the
  notice that \<open>transcribeAudio\<close> returns for a voice message, and the voice of the
  environment.
\<close>

record config =
  MASTER_PROMPT :: jsstring
  visualsPrompt :: "jsstring \<Rightarrow> jsstring"
  headlinesPrompt :: jsstring
  voiceNotice :: jsstring
  ELEVENLABS_VOICE_ID :: jsstring

definition send :: "delivery \<Rightarrow> world \<Rightarrow> world" where
  "send d w = w\<lparr>sent := sent w @ [d]\<rparr>"

text \<open>A value is truthy when it is neither \<open>null\<close> nor the empty string.\<close>

fun truthy :: "jsstring option \<Rightarrow> bool" where
  "truthy None = False"
| "truthy (Some s) = (s \<noteq> [])"

text \<open>The three calls of the text service; each logs its prompt.\<close>

definition callPerplexityAPI :: "services \<Rightarrow> config \<Rightarrow> jsstring \<Rightarrow> world \<Rightarrow> jsstring option \<times> world" where
  "callPerplexityAPI svc cfg editorial w =
     (let prompt = MASTER_PROMPT cfg @ [10, 10] @ js ''Base News Item: '' @ editorial
      in (chat_completion svc prompt, w\<lparr>asked := asked w @ [prompt]\<rparr>))"

definition callVisualsAPI :: "services \<Rightarrow> config \<Rightarrow> jsstring \<Rightarrow> world \<Rightarrow> jsstring option \<times> world" where
  "callVisualsAPI svc cfg script w =
     (let prompt = visualsPrompt cfg script
      in (chat_completion svc prompt, w\<lparr>asked := asked w @ [prompt]\<rparr>))"

definition callHeadlinesAPI :: "services \<Rightarrow> config \<Rightarrow> world \<Rightarrow> jsstring option \<times> world" where
  "callHeadlinesAPI svc cfg w =
     (chat_completion svc (headlinesPrompt cfg), w\<lparr>asked := asked w @ [headlinesPrompt cfg]\<rparr>)"

section \<open>Audio synthesis\<close>

text \<open>
  The source passes audio around as paths of files that it writes and reads back; a path
  is modelled by the content of its file. \<open>generateSingleAudioChunk\<close> cuts the text to
  5000 units and asks the speech service once.
\<close>

definition generateSingleAudioChunk :: "services \<Rightarrow> jsstring \<Rightarrow> jsstring \<Rightarrow> bytes option" where
  "generateSingleAudioChunk svc text voiceId =
     text_to_speech svc voiceId (if length text > 5000 then take 5000 text else text)"

text \<open>The loop over the chunks: a chunk that fails is logged and skipped.\<close>

fun audio_chunk_loop :: "services \<Rightarrow> jsstring \<Rightarrow> jsstring list \<Rightarrow> bytes list \<Rightarrow> bytes list" where
  "audio_chunk_loop svc voiceId [] audioChunkPaths = audioChunkPaths"
| "audio_chunk_loop svc voiceId (chunk # rest) audioChunkPaths =
     (case generateSingleAudioChunk svc chunk voiceId of
        Some chunkPath \<Rightarrow> audio_chunk_loop svc voiceId rest (audioChunkPaths @ [chunkPath])
      | None \<Rightarrow> audio_chunk_loop svc voiceId rest audioChunkPaths)"

definition combineAudioChunks :: "bytes list \<Rightarrow> bytes option" where
  "combineAudioChunks audioChunkPaths = Some (concat audioChunkPaths)"

definition generateAudioWithVoice :: "services \<Rightarrow> jsstring \<Rightarrow> jsstring \<Rightarrow> bytes option" where
  "generateAudioWithVoice svc script voiceId =
     (if script = [] then None
      else
        let chunks = splitScriptIntoChunks script in
        if length chunks = 1 \<and> length (chunks ! 0) \<le> 5000
        then generateSingleAudioChunk svc (chunks ! 0) voiceId
        else
          let audioChunkPaths = audio_chunk_loop svc voiceId chunks [] in
          if length audioChunkPaths = 0 then None
          else combineAudioChunks audioChunkPaths)"

definition generateAudio :: "services \<Rightarrow> config \<Rightarrow> jsstring \<Rightarrow> bytes option" where
  "generateAudio svc cfg script =
     (if script = [] then None
      else
        let chunks = splitScriptIntoChunks script in
        if length chunks = 1 \<and> length (chunks ! 0) \<le> 5000
        then generateSingleAudioChunk svc (chunks ! 0) (ELEVENLABS_VOICE_ID cfg)
        else
          let audioChunkPaths = audio_chunk_loop svc (ELEVENLABS_VOICE_ID cfg) chunks [] in
          if length audioChunkPaths = 0 then None
          else combineAudioChunks audioChunkPaths)"

section \<open>Resolving a voice\<close>

text \<open>
  \<open>toLowerCase\<close> on a string of ASCII units maps the letters A to Z to a to z. A string
  with a unit outside ASCII is lower-cased by the runtime, with the case mapping of
  Unicode: \<open>lowered\<close> is \<open>s.toLowerCase()\<close> for any string.
\<close>

definition toLowerCase :: "jsstring \<Rightarrow> jsstring" where
  "toLowerCase s = map (\<lambda>c. if 65 \<le> c \<and> c \<le> 90 then c + 32 else c) s"

definition lowered :: "services \<Rightarrow> jsstring \<Rightarrow> jsstring" where
  "lowered svc s = (if list_all (\<lambda>c. c < 128) s then toLowerCase s else lower_case svc s)"

fun starts_with :: "jsstring \<Rightarrow> jsstring \<Rightarrow> bool" where
  "starts_with s [] = True"
| "starts_with [] (y # ys) = False"
| "starts_with (x # xs) (y # ys) = (x = y \<and> starts_with xs ys)"

fun js_includes :: "jsstring \<Rightarrow> jsstring \<Rightarrow> bool" where
  "js_includes [] sub = (sub = [])"
| "js_includes (x # xs) sub = (starts_with (x # xs) sub \<or> js_includes xs sub)"

definition voiceMappings :: "(jsstring \<times> jsstring) list" where
  "voiceMappings =
     [(js ''female anchor'', js ''1t3sfuW00ixjYR0WrUwv''),
      (js ''faisal'', js ''yMh3XlxlKciyQtb9aaKf''),
      (js ''emaan'', js ''NSKerni0PGvnWc5PhIaJ''),
      (js ''musawar'', js ''XCkZqFlln3hpafGy0oM8''),
      (js ''aftab'', js ''N3Vp5nz3tT8lqNywhElB''),
      (js ''default'', js ''1t3sfuW00ixjYR0WrUwv'')]"

text \<open>
  The table is an object literal, so indexing it also finds the properties that every
  object inherits. The name is lower-cased before the lookup, which leaves two inherited
  names that can be hit: \<open>constructor\<close> (the function \<open>Object\<close>) and \<open>__proto__\<close>
  (the prototype object). Both values are truthy and are returned as the voice; the only
  use of the voice afterwards is its interpolation into the request URL, so they are
  modelled by the strings that interpolation gives.
\<close>

definition inheritedProperties :: "(jsstring \<times> jsstring) list" where
  "inheritedProperties =
     [(js ''constructor'', js ''function Object() { [native code] }''),
      (js ''__proto__'', js ''[object Object]'')]"

text \<open>
  The table is looked up first; then the voices of the service are searched for a name
  that includes the normalised name. A name found nowhere, and a request that throws,
  both give the identifier of the default voice.
\<close>

definition getVoiceId :: "services \<Rightarrow> jsstring \<Rightarrow> jsstring" where
  "getVoiceId svc voiceName =
     (let normalizedVoiceName = trim (lowered svc voiceName) in
      case map_of (voiceMappings @ inheritedProperties) normalizedVoiceName of
        Some voiceId \<Rightarrow> voiceId
      | None \<Rightarrow>
        (case list_voices svc of
           None \<Rightarrow> js ''1t3sfuW00ixjYR0WrUwv''
         | Some voices \<Rightarrow>
           (case find (\<lambda>v. js_includes (lowered svc (fst v)) normalizedVoiceName) voices of
              Some voice \<Rightarrow> snd voice
            | None \<Rightarrow> the (map_of voiceMappings (js ''default'')))))"

section \<open>The pipelines\<close>

definition failed_script :: jsstring where
  "failed_script = 10060 # js '' Failed to generate script. Please try again.''"

definition failed_visuals :: jsstring where
  "failed_visuals = 10060 # js '' Failed to generate visuals. Please try again.''"

definition failed_voice :: jsstring where
  "failed_voice = 10060 # js '' Failed to generate voice. Please try again.''"

definition failed_headlines :: jsstring where
  "failed_headlines = 10060 # js '' Failed to fetch headlines. Please try again.''"

definition no_recent_headlines :: jsstring where
  "no_recent_headlines =
     10060 # js '' No recent headlines found. Please type '' @ [34] @ js ''agenda'' @ [34] @
     js '' first to get latest headlines.''"

text \<open>A number in a template literal: its decimal digits.\<close>

function decimal :: "nat \<Rightarrow> jsstring" where
  "decimal n = (if n < 10 then [48 + n] else decimal (n div 10) @ [48 + n mod 10])"
  by pat_completeness auto
termination
  by (relation "measure id") auto

declare decimal.simps [simp del]

definition processScriptOnly :: "services \<Rightarrow> config \<Rightarrow> jsstring \<Rightarrow> jsstring \<Rightarrow> jsstring \<Rightarrow> world \<Rightarrow> world" where
  "processScriptOnly svc cfg content messageId remoteJid w =
     (let scriptPrompt = MASTER_PROMPT cfg @ [10, 10] @ js ''Base News Item: '' @ content;
          (response, w1) = callPerplexityAPI svc cfg scriptPrompt w
      in if truthy response
         then send (TextDelivery remoteJid
                ([55357, 56541] @ js '' **Generated Script:**'' @ [10, 10] @ the response)) w1
         else send (TextDelivery remoteJid failed_script) w1)"

definition processVisualsOnly :: "services \<Rightarrow> config \<Rightarrow> jsstring \<Rightarrow> jsstring \<Rightarrow> jsstring \<Rightarrow> world \<Rightarrow> world" where
  "processVisualsOnly svc cfg content messageId remoteJid w =
     (let (response, w1) = callVisualsAPI svc cfg content w
      in if truthy response then send (TextDelivery remoteJid (the response)) w1
         else send (TextDelivery remoteJid failed_visuals) w1)"

definition processVoiceOnly :: "services \<Rightarrow> config \<Rightarrow> jsstring \<Rightarrow> jsstring \<Rightarrow> jsstring \<Rightarrow> world \<Rightarrow> world" where
  "processVoiceOnly svc cfg content messageId remoteJid w =
     (case generateAudio svc cfg content of
        Some audioPath \<Rightarrow> send (AudioDelivery remoteJid audioPath False) w
      | None \<Rightarrow> send (TextDelivery remoteJid failed_voice) w)"

definition processVoiceWithPerson :: "services \<Rightarrow> config \<Rightarrow> jsstring \<Rightarrow> jsstring \<Rightarrow> jsstring \<Rightarrow> jsstring \<Rightarrow> world \<Rightarrow> world" where
  "processVoiceWithPerson svc cfg content voiceName messageId remoteJid w =
     (let voiceId = getVoiceId svc voiceName in
      if voiceId = []
      then processVoiceOnly svc cfg content messageId remoteJid
             (send (TextDelivery remoteJid
                (10060 # js '' Voice '' @ [39] @ voiceName @ [39] @
                 js '' not found. Using default voice instead.'')) w)
      else
        (case generateAudioWithVoice svc content voiceId of
           Some audioPath \<Rightarrow> send (AudioDelivery remoteJid audioPath True) w
         | None \<Rightarrow> send (TextDelivery remoteJid failed_voice) w))"

text \<open>
  \<open>sendToWhatsAppGroups\<close>: the heading, the script in chunks of at most 3500 units, the
  audio when there is a file, all to the script group; the visuals to the visual group.
\<close>

definition sendToWhatsAppGroups :: "jsstring \<Rightarrow> jsstring option \<Rightarrow> bytes option \<Rightarrow> jsstring \<Rightarrow> world \<Rightarrow> world" where
  "sendToWhatsAppGroups script visuals audioPath originalTopic w =
     (let w1 =
        (if script \<noteq> [] then
           let shortTopic = take 50 originalTopic @ (if length originalTopic > 50 then js ''...'' else []);
               heading = [55357, 56541] @ js '' Vision Point Script (9 min) '' @ [8212, 32] @ shortTopic;
               w2 = send (TextDelivery (groupJIDs_demoScript w) heading) w;
               w3 = fold (\<lambda>chunk. send (TextDelivery (groupJIDs_demoScript w) chunk)) (chunkText script 3500) w2
           in (case audioPath of
                 Some audioBuffer \<Rightarrow> send (AudioDelivery (groupJIDs_demoScript w) audioBuffer False) w3
               | None \<Rightarrow> w3)
         else w)
      in if truthy visuals then send (TextDelivery (groupJIDs_demoVisual w) (the visuals)) w1 else w1)"

definition processEditorial :: "services \<Rightarrow> config \<Rightarrow> jsstring \<Rightarrow> jsstring \<Rightarrow> world \<Rightarrow> world" where
  "processEditorial svc cfg editorial messageId w =
     (let (perplexityResponse, w1) = callPerplexityAPI svc cfg editorial w in
      if \<not> truthy perplexityResponse then w1
      else
        let (script, visuals) = extractScriptAndVisuals (the perplexityResponse) in
        if script = [] then w1
        else
          let w2 = sendToWhatsAppGroups script None None editorial w1
          in send (ReactionDelivery (groupJIDs_content w) messageId [9989]) w2)"

text \<open>
  \<open>str.split('\n')\<close>, and the patterns \<open>/^\d+\./\<close> and \<open>/^\d+\.\s*/\<close> of the headline
  lines.
\<close>

fun split_on :: "nat \<Rightarrow> jsstring \<Rightarrow> jsstring \<Rightarrow> jsstring list" where
  "split_on u piece [] = [rev piece]"
| "split_on u piece (x # r) =
     (if x = u then rev piece # split_on u [] r else split_on u (x # piece) r)"

definition numbered_rx :: regex where
  "numbered_rx = seqs [Bos, Plus Digit, One (Unit 46)]"

definition number_prefix_rx :: regex where
  "number_prefix_rx = seqs [Bos, Plus Digit, One (Unit 46), Star Space]"

definition processAgenda :: "services \<Rightarrow> config \<Rightarrow> jsstring \<Rightarrow> jsstring \<Rightarrow> int \<Rightarrow> world \<Rightarrow> world" where
  "processAgenda svc cfg messageId remoteJid now w =
     (let (response, w1) = callHeadlinesAPI svc cfg w in
      if truthy response then
        let headlineLines =
              filter (\<lambda>line. js_match numbered_rx line \<noteq> None) (split_on 10 [] (the response));
            w2 = w1\<lparr>currentHeadlines := (currentHeadlines w1)
                     (remoteJid \<mapsto> \<lparr>headlines = headlineLines, timestamp = now\<rparr>)\<rparr>
        in send (TextDelivery remoteJid (the response)) w2
      else send (TextDelivery remoteJid failed_headlines) w1)"

definition processHeadlineSelection :: "services \<Rightarrow> config \<Rightarrow> nat \<Rightarrow> jsstring \<Rightarrow> jsstring \<Rightarrow> int \<Rightarrow> world \<Rightarrow> world" where
  "processHeadlineSelection svc cfg number messageId remoteJid now w =
     (case currentHeadlines w remoteJid of
        None \<Rightarrow> send (TextDelivery remoteJid no_recent_headlines) w
      | Some userHeadlines \<Rightarrow>
          if now - timestamp userHeadlines > 3600000
          then send (TextDelivery remoteJid no_recent_headlines) w
          else if number < 1 \<or> number > length (headlines userHeadlines)
          then send (TextDelivery remoteJid
                 (10060 # js '' Invalid number. Please choose between 1-'' @
                  decimal (length (headlines userHeadlines)) @ js ''.'')) w
          else
            let selectedHeadline = headlines userHeadlines ! (number - 1);
                headlineText = remove_first number_prefix_rx [] selectedHeadline;
                scriptPrompt = MASTER_PROMPT cfg @ [10, 10] @ js ''Base News Item (Headline '' @
                               decimal number @ js ''): '' @ headlineText;
                (response, w1) = callPerplexityAPI svc cfg scriptPrompt w
            in if truthy response then send (TextDelivery remoteJid (the response)) w1
               else send (TextDelivery remoteJid failed_script) w1)"

text \<open>\<open>handleCommand\<close>; \<open>now\<close> is what \<open>Date.now()\<close> gives during the call.\<close>

fun handleCommand :: "services \<Rightarrow> config \<Rightarrow> command \<Rightarrow> jsstring \<Rightarrow> jsstring \<Rightarrow> int \<Rightarrow> world \<Rightarrow> world" where
  "handleCommand svc cfg (Topic content) messageId remoteJid now w =
     processEditorial svc cfg content messageId w"
| "handleCommand svc cfg (Script content) messageId remoteJid now w =
     processScriptOnly svc cfg content messageId remoteJid w"
| "handleCommand svc cfg (Visuals content) messageId remoteJid now w =
     processVisualsOnly svc cfg content messageId remoteJid w"
| "handleCommand svc cfg (Voice content) messageId remoteJid now w =
     processVoiceOnly svc cfg content messageId remoteJid w"
| "handleCommand svc cfg (VoicePerson voiceName content) messageId remoteJid now w =
     processVoiceWithPerson svc cfg content voiceName messageId remoteJid w"
| "handleCommand svc cfg Agenda messageId remoteJid now w =
     processAgenda svc cfg messageId remoteJid now w"
| "handleCommand svc cfg (Number number) messageId remoteJid now w =
     processHeadlineSelection svc cfg number messageId remoteJid now w"

section \<open>Incoming messages\<close>

text \<open>
  What the handler reads of an incoming message: its key, its text
  (\<open>conversation\<close> or the extended text), and whether it carries audio.
\<close>

record message =
  key_fromMe :: bool
  key_remoteJid :: jsstring
  key_id :: jsstring
  message_text :: "jsstring option"
  audioMessage :: bool

text \<open>
  A voice message is downloaded and answered by the fixed notice of \<open>transcribeAudio\<close>,
  which goes through the editorial path.
\<close>

definition handleVoiceMessage :: "services \<Rightarrow> config \<Rightarrow> message \<Rightarrow> jsstring \<Rightarrow> jsstring \<Rightarrow> world \<Rightarrow> world" where
  "handleVoiceMessage svc cfg message messageId remoteJid w =
     (case download_media svc messageId of
        None \<Rightarrow> w
      | Some audioBuffer \<Rightarrow>
          let transcribedText = voiceNotice cfg in
          if transcribedText = [] then w
          else processEditorial svc cfg transcribedText messageId w)"

definition handleIncomingMessages :: "services \<Rightarrow> config \<Rightarrow> message \<Rightarrow> int \<Rightarrow> world \<Rightarrow> world" where
  "handleIncomingMessages svc cfg message now w =
     (if key_fromMe message then w
      else if audioMessage message \<and> key_remoteJid message = groupJIDs_content w
      then handleVoiceMessage svc cfg message (key_id message) (key_remoteJid message) w
      else if truthy (message_text message) \<and> length (trim (the (message_text message))) > 0
      then
        (case parseCommand (the (message_text message)) of
           Some commandResult \<Rightarrow>
             handleCommand svc cfg commandResult (key_id message) (key_remoteJid message) now w
         | None \<Rightarrow>
             if key_remoteJid message = groupJIDs_content w
             then processEditorial svc cfg (the (message_text message)) (key_id message) w
             else w)
      else w)"

section \<open>Notions for the statements\<close>

text \<open>
  \<open>pieces.join(sep)\<close>: the pieces in order with the separator between each two.
\<close>

fun join_with :: "jsstring \<Rightarrow> jsstring list \<Rightarrow> jsstring" where
  "join_with sep [] = []"
| "join_with sep [p] = p"
| "join_with sep (p # q # ps) = p @ sep @ join_with sep (q # ps)"

text \<open>
  The pieces of a text with a separator after each piece but the last, each separator
  its own string: what a text is when it has been split into \<open>pieces\<close> at the places
  where the separators \<open>seps\<close> stand.
\<close>

fun weave :: "jsstring list \<Rightarrow> jsstring list \<Rightarrow> jsstring" where
  "weave [] seps = []"
| "weave (p # ps) [] = p @ weave ps []"
| "weave (p # ps) (sep # seps) = p @ sep @ weave ps seps"

text \<open>
  The paragraphs of a script as the loop of \<open>splitScriptIntoChunks\<close> sees them: the
  pieces between the matches of \<open>/\n\s*\n/\<close>, each trimmed, without the empty ones.
\<close>

definition paragraphs :: "jsstring \<Rightarrow> jsstring list" where
  "paragraphs script = filter (\<lambda>p. p \<noteq> []) (map trim (js_split paragraph_rx script))"

section \<open>A concrete setting\<close>

text \<open>
  A world in which nothing has happened yet and a configuration, for stating instances:
  three group identifiers, an empty headline store, nothing sent and nothing asked.
\<close>

definition initial_world :: world where
  "initial_world =
     \<lparr>groupJIDs_content = js ''content@g.us'', groupJIDs_demoScript = js ''script@g.us'',
      groupJIDs_demoVisual = js ''visual@g.us'', currentHeadlines = Map.empty,
      sent = [], asked = []\<rparr>"

definition example_config :: config where
  "example_config =
     \<lparr>MASTER_PROMPT = js ''You are a professional scriptwriter.'',
      visualsPrompt = (\<lambda>c. js ''Analyze the provided script. '' @ c @ js '' Script Content: '' @ c),
      headlinesPrompt = js ''Provide exactly 10 current top headlines.'',
      voiceNotice = js ''Please send your content as text.'',
      ELEVENLABS_VOICE_ID = js ''your_voice_id_here''\<rparr>"

text \<open>
  Services for stating instances: a text service that gives the same answer to every
  prompt (with no speech, voices or media); a speech service whose audio is the
  identifier of the voice it was asked for, with one listed voice; and a text service
  that answers the headlines prompt with two numbered lines and any other prompt with a
  fixed script.
\<close>

definition answering :: "jsstring option \<Rightarrow> services" where
  "answering reply =
     \<lparr>chat_completion = (\<lambda>prompt. reply), text_to_speech = (\<lambda>voiceId text. None),
      list_voices = None, download_media = (\<lambda>messageId. None), lower_case = (\<lambda>s. s)\<rparr>"

definition voice_services :: services where
  "voice_services =
     \<lparr>chat_completion = (\<lambda>prompt. None), text_to_speech = (\<lambda>voiceId text. Some voiceId),
      list_voices = Some [(js ''Rachel'', js ''21m00Tcm4TlvDq8ikWAM'')],
      download_media = (\<lambda>messageId. None), lower_case = (\<lambda>s. s)\<rparr>"

definition agenda_services :: services where
  "agenda_services =
     \<lparr>chat_completion =
        (\<lambda>prompt. if prompt = js ''Provide exactly 10 current top headlines.''
                  then Some (js ''1. Floods'' @ [10] @ js ''2. Budget'')
                  else Some (js ''SCRIPT'')),
      text_to_speech = (\<lambda>voiceId text. None), list_voices = None,
      download_media = (\<lambda>messageId. None), lower_case = (\<lambda>s. s)\<rparr>"

section \<open>Properties\<close>

lemma star_greedy_mem:
  "(l', r', g') \<in> set (star_greedy c (l, r, g)) \<longleftrightarrow>
   (\<exists>w. r = w @ r' \<and> l' = rev w @ l \<and> g' = g \<and> (\<forall>x\<in>set w. in_class c x))"
proof (induction r arbitrary: l)
  case Nil
  then show ?case by auto
next
  case (Cons x r)
  show ?case
  proof (cases "in_class c x")
    case True
    then show ?thesis
      using Cons.IH [of "x # l"] by (auto simp: Cons_eq_append_conv)
  next
    case False
    then show ?thesis by (auto simp: Cons_eq_append_conv)
  qed
qed

lemma star_lazy_mem:
  "(l', r', g') \<in> set (star_lazy c (l, r, g)) \<longleftrightarrow>
   (\<exists>w. r = w @ r' \<and> l' = rev w @ l \<and> g' = g \<and> (\<forall>x\<in>set w. in_class c x))"
proof (induction r arbitrary: l)
  case Nil
  then show ?case by auto
next
  case (Cons x r)
  show ?case
  proof (cases "in_class c x")
    case True
    then show ?thesis
      using Cons.IH [of "x # l"] by (auto simp: Cons_eq_append_conv)
  next
    case False
    then show ?thesis by (auto simp: Cons_eq_append_conv)
  qed
qed

lemma plus_mem:
  "(l', r', g') \<in> set (run (Plus c) (l, r, g)) \<longleftrightarrow>
   (\<exists>w. w \<noteq> [] \<and> r = w @ r' \<and> l' = rev w @ l \<and> g' = g \<and> (\<forall>x\<in>set w. in_class c x))"
  by (cases r) (auto simp: star_greedy_mem Cons_eq_append_conv)

lemma one_mem:
  "(l', r', g') \<in> set (run (One c) (l, r, g)) \<longleftrightarrow>
   (\<exists>x. r = x # r' \<and> l' = x # l \<and> g' = g \<and> in_class c x)"
  by (cases r) auto

lemma seq_mem:
  "m' \<in> set (run (Seq a b) s) \<longleftrightarrow> (\<exists>m\<in>set (run a s). m' \<in> set (run b m))"
  by auto

lemma group_mem:
  "(l', r', g') \<in> set (run (Group a) (l, r, g)) \<longleftrightarrow>
   (\<exists>g0. (l', r', g0) \<in> set (run a (l, r, g)) \<and> g' = g0 @ [take (length r - length r') r])"
  by (force simp: image_iff)

text \<open>a literal under the i flag\<close>
lemma lit_i_run:
  "length v = length p \<Longrightarrow> map canonicalize v = map canonicalize p \<Longrightarrow>
   run (Seq (lit_i p) k) (l, v @ r, g) = run k (rev v @ l, r, g)"
  unfolding lit_i_def
proof (induction p arbitrary: v l)
  case Nil
  then show ?case by simp
next
  case (Cons u p)
  then obtain x v' where v: "v = x # v'" by (cases v) auto
  with Cons.prems have "canonicalize x = canonicalize u" "length v' = length p"
    "map canonicalize v' = map canonicalize p" by auto
  with Cons.IH [of v' "x # l"] v show ?case by simp
qed

lemma search_bos: "search (Seq Bos a) [] r = match_at (Seq Bos a) [] r"
proof -
  have "l \<noteq> [] \<Longrightarrow> search (Seq Bos a) l r = None" for l r
    by (induction r arbitrary: l) (auto simp: match_at_def)
  then show ?thesis by (cases r) (auto split: option.splits)
qed

lemma dropWhile_all: "\<forall>x\<in>set s. P x \<Longrightarrow> dropWhile P s = []"
  by (induction s) auto

lemma trim_all_ws: "\<forall>x\<in>set s. is_ws x \<Longrightarrow> trim s = []"
  by (simp add: trim_def dropWhile_all)

lemma trim_ws_prefix: "\<forall>x\<in>set w. is_ws x \<Longrightarrow> trim (w @ s) = trim s"
  by (simp add: trim_def)

lemma trim_ws_suffix: "\<forall>x\<in>set w. is_ws x \<Longrightarrow> trim (s @ w) = trim s"
proof (cases "\<forall>x\<in>set s. is_ws x")
  case True
  assume "\<forall>x\<in>set w. is_ws x"
  with True have "\<forall>x\<in>set (s @ w). is_ws x" by auto
  then have "trim (s @ w) = []" by (rule trim_all_ws)
  with True show ?thesis by (simp add: trim_all_ws)
next
  case False
  assume w: "\<forall>x\<in>set w. is_ws x"
  from False have "dropWhile is_ws (s @ w) = dropWhile is_ws s @ w"
    by (auto simp: dropWhile_append1)
  moreover from w have "dropWhile is_ws (rev w @ rev (dropWhile is_ws s)) = dropWhile is_ws (rev (dropWhile is_ws s))"
    by (intro dropWhile_append2) simp
  ultimately show ?thesis by (simp add: trim_def)
qed

lemma first_unit_unique:
  "u \<notin> set xs \<Longrightarrow> u \<notin> set ys \<Longrightarrow> xs @ u # r1 = ys @ u # r2 \<Longrightarrow> xs = ys \<and> r1 = r2"
proof (induction xs arbitrary: ys)
  case Nil
  then show ?case by (cases ys) auto
next
  case (Cons x xs)
  then show ?case by (cases ys) auto
qed

lemma seq_bos: "run (Seq Bos k) ([], r, g) = run k ([], r, g)"
  by simp

lemma eos_mem: "(l', r', g') \<in> set (run Eos (l, r, g)) \<longleftrightarrow> r = [] \<and> l' = l \<and> r' = r \<and> g' = g"
  by auto

lemma eps_mem: "m' \<in> set (run Eps m) \<longleftrightarrow> m' = m"
  by auto

lemma star_mem:
  "(l', r', g') \<in> set (run (Star c) (l, r, g)) \<longleftrightarrow>
   (\<exists>w. r = w @ r' \<and> l' = rev w @ l \<and> g' = g \<and> (\<forall>x\<in>set w. in_class c x))"
  by (simp add: star_greedy_mem)

lemma lazy_mem:
  "(l', r', g') \<in> set (run (LazyStar c) (l, r, g)) \<longleftrightarrow>
   (\<exists>w. r = w @ r' \<and> l' = rev w @ l \<and> g' = g \<and> (\<forall>x\<in>set w. in_class c x))"
  by (simp add: star_lazy_mem)

lemma bol_mem:
  "(l', r', g') \<in> set (run Bol (l, r, g)) \<longleftrightarrow>
   (case l of [] \<Rightarrow> True | x # _ \<Rightarrow> is_line_terminator x) \<and> l' = l \<and> r' = r \<and> g' = g"
  by (auto split: list.splits)

lemma bos_mem: "(l', r', g') \<in> set (run Bos (l, r, g)) \<longleftrightarrow> l = [] \<and> l' = l \<and> r' = r \<and> g' = g"
  by auto

lemma behind_mem:
  "(l', r', g') \<in> set (run (Behind c) (l, r, g)) \<longleftrightarrow>
   (case l of [] \<Rightarrow> False | x # _ \<Rightarrow> in_class c x) \<and> l' = l \<and> r' = r \<and> g' = g"
  by (auto split: list.splits)

lemma alt_mem: "m' \<in> set (run (Alt a b) s) \<longleftrightarrow> m' \<in> set (run a s) \<or> m' \<in> set (run b s)"
  by auto

lemmas rx_mem = seq_mem plus_mem star_mem lazy_mem group_mem one_mem eos_mem eps_mem bol_mem bos_mem
  behind_mem alt_mem

lemma vp_split:
  assumes eq: "seg @ 58 # rest = w @ wa @ wb @ 58 # wc @ ah"
    and "58 \<notin> set seg" and w: "\<forall>x\<in>set w. is_ws x" and wb: "\<forall>x\<in>set wb. is_ws x"
    and wc: "\<forall>x\<in>set wc. is_ws x" and "\<forall>x\<in>set wa. x \<noteq> 58"
  shows "trim wa = trim seg \<and> trim ah = trim rest"
proof -
  have nc: "\<not> is_ws 58" by (simp add: is_ws_def)
  have "58 \<notin> set (w @ wa @ wb)" using assms nc by auto
  moreover from eq have "seg @ 58 # rest = (w @ wa @ wb) @ 58 # (wc @ ah)" by simp
  ultimately have "seg = w @ wa @ wb \<and> rest = wc @ ah"
    using \<open>58 \<notin> set seg\<close> by (rule first_unit_unique [rotated])
  moreover have "trim (w @ wa @ wb) = trim wa"
    using w wb trim_ws_prefix [of w "wa @ wb"] trim_ws_suffix [of wb wa] by simp
  moreover have "trim (wc @ ah) = trim ah"
    using wc by (rule trim_ws_prefix)
  ultimately show ?thesis by simp
qed

lemma voice_person_mem:
  assumes "(l', r', g') \<in> set (run voice_person_rx ([], v @ seg @ 58 # rest, []))"
    and "length v = 5" and "map canonicalize v = map canonicalize (js ''voice'')"
    and "58 \<notin> set seg"
  shows "\<exists>g1 g2. g' = [g1, g2] \<and> trim g1 = trim seg \<and> trim g2 = trim rest"
proof -
  from assms have "(l', r', g') \<in> set (run (seqs [Plus Space, Group (Plus (NoneOf [58])), Star Space,
           One (Unit 58), Star Space, Group (Plus AnyUnit), Eos]) (rev v, seg @ 58 # rest, []))"
    by (simp add: voice_person_rx_def seq_bos lit_i_run js_def del: run.simps)
  then show ?thesis
    using assms(4) by (clarsimp simp: rx_mem Bex_def simp del: run.simps) (rule vp_split)
qed

lemma seq_memI: "m \<in> set (run a s) \<Longrightarrow> m' \<in> set (run b m) \<Longrightarrow> m' \<in> set (run (Seq a b) s)"
  by auto

lemma voice_person_ex:
  assumes "length v = 5" and "map canonicalize v = map canonicalize (js ''voice'')"
    and "is_ws x" and "seg \<noteq> []" and "58 \<notin> set seg" and "rest \<noteq> []"
  shows "run voice_person_rx ([], v @ x # seg @ 58 # rest, []) \<noteq> []"
proof -
  let ?l1 = "x # rev v" and ?l2 = "rev seg @ x # rev v"
  let ?l3 = "58 # rev seg @ x # rev v" and ?l4 = "rev rest @ 58 # rev seg @ x # rev v"
  have 1: "(?l1, seg @ 58 # rest, []) \<in> set (run (Plus Space) (rev v, x # seg @ 58 # rest, []))"
    using assms by (auto simp: plus_mem simp del: run.simps intro!: exI [of _ "[x]"])
  have 2: "(?l2, 58 # rest, [seg]) \<in> set (run (Group (Plus (NoneOf [58]))) (?l1, seg @ 58 # rest, []))"
    using assms by (auto simp: group_mem plus_mem simp del: run.simps intro!: exI [of _ seg])
  have 3: "(?l2, 58 # rest, [seg]) \<in> set (run (Star Space) (?l2, 58 # rest, [seg]))"
    by (auto simp: star_mem simp del: run.simps)
  have 4: "(?l3, rest, [seg]) \<in> set (run (One (Unit 58)) (?l2, 58 # rest, [seg]))"
    by simp
  have 5: "(?l3, rest, [seg]) \<in> set (run (Star Space) (?l3, rest, [seg]))"
    by (auto simp: star_mem simp del: run.simps)
  have 6: "(?l4, [], [seg, rest]) \<in> set (run (Group (Plus AnyUnit)) (?l3, rest, [seg]))"
    using assms by (auto simp: group_mem plus_mem simp del: run.simps)
  have 7: "(?l4, [], [seg, rest]) \<in> set (run (Seq Eos Eps) (?l4, [], [seg, rest]))"
    by simp
  have "(?l4, [], [seg, rest]) \<in> set (run (seqs [Plus Space, Group (Plus (NoneOf [58])), Star Space,
           One (Unit 58), Star Space, Group (Plus AnyUnit), Eos]) (rev v, x # seg @ 58 # rest, []))"
    unfolding seqs.simps
    by (rule seq_memI [OF 1], rule seq_memI [OF 2], rule seq_memI [OF 3], rule seq_memI [OF 4],
        rule seq_memI [OF 5], rule seq_memI [OF 6], rule 7)
  with assms have "(?l4, [], [seg, rest]) \<in> set (run voice_person_rx ([], v @ x # seg @ 58 # rest, []))"
    by (simp add: voice_person_rx_def seq_bos lit_i_run js_def del: run.simps)
  then show ?thesis by auto
qed


lemma voice_units:
  assumes "map canonicalize v = map canonicalize (js ''voice'')"
  obtains a b c d e where "v = [a, b, c, d, e]" and "canonicalize a = 86"
    and "canonicalize b = 79" and "length v = 5"
proof -
  have "canonicalize 118 = 86" "canonicalize 111 = 79" by (simp_all add: canonicalize_def)
  with assms that show thesis by (auto simp: js_def map_eq_Cons_conv)
qed

lemma keyword_rx_voice:
  assumes "map canonicalize v = map canonicalize (js ''voice'')"
  shows "js_match (keyword_rx ''topic'') (v @ r) = None"
    and "js_match (keyword_rx ''script'') (v @ r) = None"
    and "js_match (keyword_rx ''visuals'') (v @ r) = None"
proof -
  from assms obtain a b c d e where v: "v = [a, b, c, d, e]" "canonicalize a = 86" "canonicalize b = 79"
    by (rule voice_units)
  have k: "keyword_rx kw = Seq Bos (seqs [lit_i (js kw), Star Space, One (Unit 58), Star Space, Group (Plus AnyUnit), Eos])" for kw
    by (simp add: keyword_rx_def)
  show "js_match (keyword_rx ''topic'') (v @ r) = None"
    unfolding js_match_def k search_bos using v
    by (simp add: match_at_def lit_i_def js_def canonicalize_def)
  show "js_match (keyword_rx ''script'') (v @ r) = None"
    unfolding js_match_def k search_bos using v
    by (simp add: match_at_def lit_i_def js_def canonicalize_def)
  show "js_match (keyword_rx ''visuals'') (v @ r) = None"
    unfolding js_match_def k search_bos using v
    by (simp add: match_at_def lit_i_def js_def canonicalize_def)
qed

text \<open>
  Claim C4. The pattern with a person's name is tried before the plain voice pattern:
  a message that, once trimmed, is the word voice (in any letter case), a white space,
  at least one unit other than a colon, a colon and some text, is classified as
  \<open>VoicePerson\<close> with the name and the content trimmed, never as \<open>Voice\<close>.
  The instance \<open>voice musawar: hello\<close> is the witness below.
\<close>

theorem parseCommand_voice_person:
  assumes msg: "trim messageText = v @ x # name @ 58 # rest"
    and v: "map canonicalize v = map canonicalize (js ''voice'')"
    and x: "is_ws x" and name: "name \<noteq> []" "58 \<notin> set name" and rest: "rest \<noteq> []"
  shows "parseCommand messageText = Some (VoicePerson (trim name) (trim rest))"
proof -
  from v have len: "length v = 5" by (rule voice_units)
  have nc: "58 \<notin> set (x # name)" using x name by (auto simp: is_ws_def)
  have vp: "voice_person_rx = Seq Bos (seqs [lit_i (js ''voice''), Plus Space, Group (Plus (NoneOf [58])), Star Space,
           One (Unit 58), Star Space, Group (Plus AnyUnit), Eos])"
    by (simp add: voice_person_rx_def)
  from voice_person_ex [OF len v x name rest]
  obtain l' r' g' ms where run: "run voice_person_rx ([], v @ x # name @ 58 # rest, []) = (l', r', g') # ms"
    by (cases "run voice_person_rx ([], v @ x # name @ 58 # rest, [])") auto
  then have "(l', r', g') \<in> set (run voice_person_rx ([], v @ (x # name) @ 58 # rest, []))" by simp
  from voice_person_mem [OF this len v nc]
  obtain g1 g2 where g: "g' = [g1, g2]" "trim g1 = trim (x # name)" "trim g2 = trim rest" by blast
  have "trim (x # name) = trim name" using x trim_ws_prefix [of "[x]" name] by simp
  with g have g1: "trim g1 = trim name" by simp
  have "search voice_person_rx [] (v @ x # name @ 58 # rest) = Some (l', r', g')"
    unfolding vp search_bos unfolding vp [symmetric] using run by (simp add: match_at_def)
  then have m: "js_match voice_person_rx (trim messageText) = Some [g1, g2]"
    using g msg by (simp add: js_match_def)
  show ?thesis
    unfolding parseCommand_def Let_def
    using keyword_rx_voice [OF v, of "x # name @ 58 # rest"] m g g1 msg by simp
qed

theorem parseCommand_voice_person_witness:
  "trim (js ''voice musawar: hello'') = js ''voice'' @ 32 # js ''musawar'' @ 58 # js '' hello'' \<and>
   parseCommand (js ''voice musawar: hello'') = Some (VoicePerson (js ''musawar'') (js ''hello''))"
  using parseCommand_voice_person [of "js ''voice musawar: hello''" "js ''voice''" 32 "js ''musawar''" "js '' hello''"]
  by (simp add: js_def trim_def is_ws_def)

lemma length_trim: "length (trim s) \<le> length s"
proof -
  have "length (dropWhile is_ws (rev (dropWhile is_ws s))) \<le> length (rev (dropWhile is_ws s))"
    by (rule length_dropWhile_le)
  also have "\<dots> \<le> length s" by (simp add: length_dropWhile_le)
  finally show ?thesis by (simp add: trim_def)
qed

lemma filter_dropWhile_neg: "filter (\<lambda>c. \<not> P c) (dropWhile P s) = filter (\<lambda>c. \<not> P c) s"
  by (induction s) auto

lemma filter_trim: "filter (\<lambda>c. \<not> is_ws c) (trim s) = filter (\<lambda>c. \<not> is_ws c) s"
proof -
  have "filter (\<lambda>c. \<not> is_ws c) (trim s) = rev (filter (\<lambda>c. \<not> is_ws c) (dropWhile is_ws (rev (dropWhile is_ws s))))"
    by (simp add: trim_def rev_filter)
  also have "\<dots> = rev (filter (\<lambda>c. \<not> is_ws c) (rev (dropWhile is_ws s)))"
    by (simp only: filter_dropWhile_neg)
  also have "\<dots> = filter (\<lambda>c. \<not> is_ws c) (dropWhile is_ws s)"
    by (simp add: rev_filter [symmetric])
  finally show ?thesis by (simp add: filter_dropWhile_neg)
qed

lemma trim_id: "s \<noteq> [] \<Longrightarrow> \<not> is_ws (hd s) \<Longrightarrow> \<not> is_ws (last s) \<Longrightarrow> trim s = s"
proof -
  assume s: "s \<noteq> []" and h: "\<not> is_ws (hd s)" and l: "\<not> is_ws (last s)"
  from s h have 1: "dropWhile is_ws s = s" by (cases s) auto
  from s l have "dropWhile is_ws (rev s) = rev s" by (cases "rev s") (auto simp: last_rev [symmetric] hd_rev)
  with 1 show ?thesis by (simp add: trim_def)
qed

lemma trim_Nil [simp]: "trim [] = []"
  by (simp add: trim_def)

lemma last_dropWhile: "dropWhile P ys \<noteq> [] \<Longrightarrow> last (dropWhile P ys) = last ys"
  by (metis last_appendR takeWhile_dropWhile_id)

lemma trim_ends:
  assumes "trim s \<noteq> []"
  shows "\<not> is_ws (hd (trim s)) \<and> \<not> is_ws (last (trim s))"
proof -
  let ?t = "dropWhile is_ws s"
  let ?d = "dropWhile is_ws (rev ?t)"
  from assms have d: "?d \<noteq> []" by (simp add: trim_def)
  have t: "?t \<noteq> []"
  proof
    assume "?t = []"
    then have "?d = []" by (simp only: rev.simps dropWhile.simps)
    with d show False by simp
  qed
  from d have "\<not> is_ws (hd ?d)" by (rule hd_dropWhile)
  then have l: "\<not> is_ws (last (trim s))" using d by (simp add: trim_def last_rev)
  from t have h: "\<not> is_ws (hd ?t)" by (rule hd_dropWhile)
  have "hd (trim s) = last ?d" using d by (simp add: trim_def hd_rev)
  also have "\<dots> = last (rev ?t)" using d by (rule last_dropWhile)
  also have "\<dots> = hd ?t" using t by (simp add: last_rev)
  finally show ?thesis using h l by simp
qed

lemma trim_trim: "trim (trim s) = trim s"
  using trim_ends [of s] trim_id [of "trim s"] by (cases "trim s = []") auto

lemma detect_boundary_eq:
  "detect_boundary notLast (chunks, cur) =
     (if length cur \<ge> targetChunkSize \<and> notLast then (chunks @ [trim cur], []) else (chunks, cur))"
  by (auto simp: detect_boundary_def minChunkSize_def targetChunkSize_def maxChunkSize_def)


lemma non_ws_trim [simp]: "non_ws (trim s) = non_ws s"
  by (simp add: non_ws_def filter_trim)

lemma non_ws_append [simp]: "non_ws (a @ b) = non_ws a @ non_ws b"
  by (simp add: non_ws_def)

lemma non_ws_Nil [simp]: "non_ws [] = []"
  by (simp add: non_ws_def)

lemma split_loop_filter:
  assumes "\<forall>l r l' r' caps. match_at rx l r = Some (l', r', caps) \<longrightarrow>
             (\<exists>w. r = w @ r' \<and> filter Q (concat caps) = filter Q w)"
  shows "filter Q (concat (split_loop rx l piece r)) = filter Q (rev piece @ r)"
  using assms
proof (induction rx l piece r rule: split_loop.induct)
  case (1 rx l piece)
  then show ?case by simp
next
  case (2 rx l piece x r)
  show ?case
  proof (cases "match_at rx l (x # r)")
    case None
    with 2 show ?thesis by simp
  next
    case (Some m)
    obtain l' r' caps where m: "m = (l', r', caps)" by (cases m) auto
    with Some 2(5) obtain w where w: "x # r = w @ r'" "filter Q (concat caps) = filter Q w"
      by blast
    from w(1) have fw: "filter Q (x # r) = filter Q w @ filter Q r'"
      by (metis filter_append)
    show ?thesis
    proof (cases "length r' < length (x # r)")
      case True
      with 2(2) [OF Some m [symmetric] _ True] 2(5) m
      have "filter Q (concat (split_loop rx l' [] r')) = filter Q r'" by simp
      with Some m True w(2) fw show ?thesis by simp
    next
      case False
      with w have w0: "w = []" "r' = x # r" by (auto simp: Cons_eq_append_conv)
      show ?thesis
      proof (cases "piece = []")
        case True
        with 2(3) [OF Some m [symmetric] _ False True] 2(5) m Some False show ?thesis by simp
      next
        case F2: False
        with 2(4) [OF Some m [symmetric] _ False F2] 2(5) m Some False w(2) w0 show ?thesis by simp
      qed
    qed
  qed
qed


lemma match_at_mem: "match_at rx l r = Some m \<Longrightarrow> m \<in> set (run rx (l, r, []))"
  by (auto simp: match_at_def split: list.splits)

lemma paragraph_match:
  assumes "match_at paragraph_rx l r = Some (l', r', caps)"
  shows "caps = [] \<and> (\<exists>w. r = w @ r' \<and> (\<forall>x\<in>set w. is_ws x))"
proof -
  from match_at_mem [OF assms]
  have "\<exists>wb. r = 10 # wb @ 10 # r' \<and> caps = [] \<and> (\<forall>x\<in>set wb. is_ws x)"
    by (clarsimp simp: paragraph_rx_def rx_mem Bex_def simp del: run.simps)
  then obtain wb where "r = (10 # wb @ [10]) @ r'" "caps = []" "\<forall>x\<in>set (10 # wb @ [10]). is_ws x"
    by (auto simp: is_ws_def)
  then show ?thesis by blast
qed

lemma sentence_match:
  assumes "match_at sentence_rx l r = Some (l', r', caps)"
  shows "\<exists>x. r = x # r' \<and> caps = [[x]]"
  using match_at_mem [OF assms]
  by (clarsimp simp: sentence_rx_def rx_mem simp del: run.simps)

lemma js_split_paragraph_non_ws: "non_ws (concat (js_split paragraph_rx s)) = non_ws s"
proof -
  have "\<forall>l r l' r' caps. match_at paragraph_rx l r = Some (l', r', caps) \<longrightarrow>
          (\<exists>w. r = w @ r' \<and> filter (\<lambda>c. \<not> is_ws c) (concat caps) = filter (\<lambda>c. \<not> is_ws c) w)"
  proof (intro allI impI)
    fix l r l' r' caps
    assume "match_at paragraph_rx l r = Some (l', r', caps)"
    from paragraph_match [OF this] obtain w where "caps = []" "r = w @ r'" "\<forall>x\<in>set w. is_ws x"
      by blast
    then have "r = w @ r' \<and> filter (\<lambda>c. \<not> is_ws c) (concat caps) = filter (\<lambda>c. \<not> is_ws c) w"
      by (simp add: filter_empty_conv [THEN iffD2])
    then show "\<exists>w. r = w @ r' \<and> filter (\<lambda>c. \<not> is_ws c) (concat caps) = filter (\<lambda>c. \<not> is_ws c) w" ..
  qed
  from split_loop_filter [OF this, of "[]" "[]" s]
  show ?thesis by (simp add: js_split_def non_ws_def)
qed

lemma js_split_sentence_concat: "concat (js_split sentence_rx s) = s"
proof -
  have "\<forall>l r l' r' caps. match_at sentence_rx l r = Some (l', r', caps) \<longrightarrow>
          (\<exists>w. r = w @ r' \<and> filter (\<lambda>c. True) (concat caps) = filter (\<lambda>c. True) w)"
  proof (intro allI impI)
    fix l r l' r' caps
    assume "match_at sentence_rx l r = Some (l', r', caps)"
    from sentence_match [OF this] obtain x where "r = [x] @ r'" "caps = [[x]]" by auto
    then have "r = [x] @ r' \<and> filter (\<lambda>c. True) (concat caps) = filter (\<lambda>c. True) [x]" by simp
    then show "\<exists>w. r = w @ r' \<and> filter (\<lambda>c. True) (concat caps) = filter (\<lambda>c. True) w" ..
  qed
  from split_loop_filter [OF this, of "[]" "[]" s]
  show ?thesis by (simp add: js_split_def)
qed

lemma concat_sentence_units: "concat (sentence_units ps) = concat ps"
  by (induction ps rule: sentence_units.induct) auto

lemma non_ws_empty_trim: "trim p = [] \<Longrightarrow> non_ws p = []"
  using non_ws_trim [of p] by (simp del: non_ws_trim)

lemma non_ws_break [simp]: "non_ws (10 # 10 # s) = non_ws s"
  by (simp add: non_ws_def is_ws_def)

lemma held_add_paragraph: "held (add_paragraph p st) = held st @ non_ws p"
  by (cases st) (auto simp: add_paragraph_def held_def)

lemma held_detect_boundary: "held (detect_boundary notLast st) = held st"
  by (cases st) (auto simp: detect_boundary_eq held_def)

lemma held_paragraph_loop: "held (paragraph_loop ps st) = held st @ non_ws (concat ps)"
proof (induction ps arbitrary: st)
  case Nil
  then show ?case by simp
next
  case (Cons p ps)
  show ?case
  proof (cases "trim p = []")
    case True
    with Cons.IH [of st] show ?thesis by (simp add: non_ws_empty_trim)
  next
    case False
    with Cons.IH [of "detect_boundary (ps \<noteq> []) (add_paragraph (trim p) st)"]
    show ?thesis by (simp add: held_detect_boundary held_add_paragraph)
  qed
qed

lemma held_add_sentence: "held (add_sentence p st) = held st @ non_ws p"
  by (cases st) (auto simp: add_sentence_def held_def)

lemma held_close_at_target: "held (close_at_target st) = held st"
  by (cases st) (auto simp: close_at_target_def held_def)

lemma held_sentence_loop: "held (sentence_loop ps st) = held st @ non_ws (concat ps)"
proof (induction ps arbitrary: st)
  case Nil
  then show ?case by simp
next
  case (Cons p ps)
  from Cons.IH [of "close_at_target (add_sentence p st)"]
  show ?case by (simp add: held_close_at_target held_add_sentence)
qed

lemma non_ws_push_rest: "non_ws (concat (push_rest st)) = held st"
  by (cases st) (auto simp: push_rest_def held_def non_ws_empty_trim)

lemma held_init [simp]: "held ([], []) = []"
  by (simp add: held_def)

lemma non_ws_splitScriptIntoChunks:
  "non_ws (concat (splitScriptIntoChunks script)) = non_ws script"
proof -
  have p: "non_ws (concat (push_rest (paragraph_loop (js_split paragraph_rx script) ([], [])))) = non_ws script"
    by (simp add: non_ws_push_rest held_paragraph_loop js_split_paragraph_non_ws)
  have s: "non_ws (concat (push_rest (sentence_loop (sentence_units (js_split sentence_rx script)) ([], [])))) = non_ws script"
    by (simp add: non_ws_push_rest held_sentence_loop concat_sentence_units js_split_sentence_concat)
  show ?thesis
    using p s by (auto simp: splitScriptIntoChunks_def Let_def)
qed

lemma paragraph_no_newline:
  "10 \<notin> set r \<Longrightarrow> split_loop paragraph_rx l piece r = [rev piece @ r]"
proof (induction r arbitrary: l piece)
  case Nil
  then show ?case by simp
next
  case (Cons x r)
  then have "match_at paragraph_rx l (x # r) = None"
    by (simp add: match_at_def paragraph_rx_def)
  with Cons show ?case by simp
qed

lemma js_split_single_paragraph: "10 \<notin> set s \<Longrightarrow> js_split paragraph_rx s = [s]"
proof (cases "s = []")
  case True
  then show ?thesis by (simp add: js_split_def match_at_def paragraph_rx_def)
next
  case False
  assume "10 \<notin> set s"
  with False show ?thesis by (simp add: js_split_def paragraph_no_newline)
qed

lemma paragraph_two:
  assumes "10 \<notin> set a" and "10 \<notin> set b" and "\<not> is_ws x"
  shows "split_loop paragraph_rx l piece (a @ 10 # 10 # x # b) = [rev piece @ a, x # b]"
  using assms(1)
proof (induction a arbitrary: l piece)
  case Nil
  have x: "x \<noteq> 10" using assms(3) by (auto simp: is_ws_def)
  have nl: "is_ws 10" by (simp add: is_ws_def)
  have "match_at paragraph_rx l (10 # 10 # x # b) = Some (10 # 10 # l, x # b, [])"
    using assms(3) x nl by (simp add: match_at_def paragraph_rx_def)
  moreover have "split_loop paragraph_rx (10 # 10 # l) [] (x # b) = [x # b]"
    using assms(2) x paragraph_no_newline [of "x # b" "10 # 10 # l" "[]"] by simp
  ultimately show ?case by simp
next
  case (Cons y a)
  then have "match_at paragraph_rx l (y # a @ 10 # 10 # x # b) = None"
    by (simp add: match_at_def paragraph_rx_def)
  with Cons show ?case by simp
qed

lemma js_split_two_paragraphs:
  "10 \<notin> set a \<Longrightarrow> 10 \<notin> set b \<Longrightarrow> \<not> is_ws x \<Longrightarrow>
   js_split paragraph_rx (a @ 10 # 10 # x # b) = [a, x # b]"
  using paragraph_two [of a b x "[]" "[]"] by (simp add: js_split_def)

lemma single_paragraph_chunk:
  assumes "js_split paragraph_rx script = [script]" and "trim script \<noteq> []"
  shows "splitScriptIntoChunks script = [trim script]"
proof -
  from assms(2) have ne: "script \<noteq> []" by auto
  have "paragraph_loop [script] ([], []) = ([], trim script)"
    using assms(2) by (simp add: add_paragraph_def detect_boundary_eq)
  then show ?thesis
    using assms ne by (simp add: splitScriptIntoChunks_def push_rest_def trim_trim)
qed

lemma set_concat_replicate: "set (concat (replicate n xs)) \<subseteq> set xs"
  by (induction n) auto

lemma hd_concat_replicate: "xs \<noteq> [] \<Longrightarrow> 0 < n \<Longrightarrow> hd (concat (replicate n xs)) = hd xs"
  by (cases n) auto

lemma last_concat_replicate: "xs \<noteq> [] \<Longrightarrow> 0 < n \<Longrightarrow> last (concat (replicate n xs)) = last xs"
proof (induction n)
  case 0
  then show ?case by simp
next
  case (Suc n)
  then show ?case by (cases "n = 0") auto
qed

text \<open>
  Claim C3 says that an input without a blank line and longer than the maximum is split
  at its sentence terminators into more than one chunk. The paragraph pass always leaves
  the whole input as its one chunk, so the sentence-only fallback, which runs only when
  no chunk was made, is not reached: an input of 600 sentences \<open>ab!\<close> (1800 units, no
  blank line) comes back as a single chunk.
\<close>

theorem splitScriptIntoChunks_no_sentence_fallback:
  "length (concat (replicate 600 (js ''ab!''))) = 1800 \<and>
   splitScriptIntoChunks (concat (replicate 600 (js ''ab!''))) = [concat (replicate 600 (js ''ab!''))]"
proof -
  let ?s = "concat (replicate 600 (js ''ab!''))"
  have len: "length ?s = 1800" by (simp add: js_def length_concat sum_list_replicate)
  have "set ?s \<subseteq> set (js ''ab!'')" by (rule set_concat_replicate)
  then have nl: "10 \<notin> set ?s" by (auto simp: js_def)
  have "hd ?s = 97" "last ?s = 33"
    by (simp_all add: hd_concat_replicate last_concat_replicate js_def)
  moreover from len have "?s \<noteq> []" by auto
  ultimately have t: "trim ?s = ?s" by (intro trim_id) (simp_all add: is_ws_def)
  from single_paragraph_chunk [OF js_split_single_paragraph [OF nl]] t \<open>?s \<noteq> []\<close> len
  show ?thesis by simp
qed

lemma two_paragraphs_example:
  "js_split paragraph_rx (replicate 1000 97 @ [10, 10] @ replicate 1000 97) = [replicate 1000 97, replicate 1000 97] \<and>
   splitScriptIntoChunks (replicate 1000 97 @ [10, 10] @ replicate 1000 97) = [replicate 1000 97 @ [10, 10] @ replicate 1000 97]"
proof -
  let ?a = "replicate 1000 (97::nat)"
  have r: "replicate 1000 (97::nat) = 97 # replicate 999 97" by (simp add: replicate_Suc [symmetric] del: replicate_Suc)
  have sp: "js_split paragraph_rx (?a @ 10 # 10 # 97 # replicate 999 97) = [?a, 97 # replicate 999 97]"
    by (rule js_split_two_paragraphs) (simp_all add: is_ws_def)
  have t: "trim ?a = ?a" by (rule trim_id) (simp_all add: is_ws_def)
  have j: "trim (?a @ 10 # 10 # ?a) = ?a @ 10 # 10 # ?a" by (rule trim_id) (simp_all add: is_ws_def)
  have pl: "paragraph_loop [?a, ?a] ([], []) = ([], ?a @ 10 # 10 # ?a)"
    using t by (simp add: add_paragraph_def detect_boundary_eq minChunkSize_def maxChunkSize_def targetChunkSize_def)
  from sp r have sp': "js_split paragraph_rx (?a @ [10, 10] @ ?a) = [?a, ?a]" by simp
  have "splitScriptIntoChunks (?a @ [10, 10] @ ?a) = [?a @ 10 # 10 # ?a]"
    using pl j sp' by (simp add: splitScriptIntoChunks_def push_rest_def)
  with sp' show ?thesis by simp
qed

text \<open>
  Claim C2 as stated fails: two paragraphs of 1000 units each, neither larger than the
  maximum and with no sentence terminator, come back as one chunk of 2002 units.
\<close>

theorem splitScriptIntoChunks_oversized_counterexample:
  "map length (js_split paragraph_rx (replicate 1000 97 @ [10, 10] @ replicate 1000 97)) = [1000, 1000] \<and>
   map length (splitScriptIntoChunks (replicate 1000 97 @ [10, 10] @ replicate 1000 97)) = [2002] \<and>
   maxChunkSize = 1650"
  using two_paragraphs_example by (simp add: maxChunkSize_def)

lemma add_paragraph_bound:
  assumes "\<forall>c\<in>set (fst st). length c \<le> B" and "length (snd st) < targetChunkSize"
    and "length p \<le> L" and "maxChunkSize + 2 \<le> B" and "minChunkSize + 1 + L \<le> B"
  shows "(\<forall>c\<in>set (fst (add_paragraph p st)). length c \<le> B) \<and> length (snd (add_paragraph p st)) \<le> B"
proof -
  obtain chunks cur where st: "st = (chunks, cur)" by (cases st)
  have "length (trim cur) \<le> length cur" by (rule length_trim)
  with assms st show ?thesis
    by (auto simp: add_paragraph_def minChunkSize_def targetChunkSize_def maxChunkSize_def)
qed

lemma detect_boundary_bound:
  assumes "\<forall>c\<in>set (fst st). length c \<le> B" and "length (snd st) \<le> B"
  shows "(\<forall>c\<in>set (fst (detect_boundary notLast st)). length c \<le> B) \<and>
         length (snd (detect_boundary notLast st)) \<le> B \<and>
         (notLast \<longrightarrow> length (snd (detect_boundary notLast st)) < targetChunkSize)"
proof -
  obtain chunks cur where st: "st = (chunks, cur)" by (cases st)
  have "length (trim cur) \<le> length cur" by (rule length_trim)
  with assms st show ?thesis
    by (auto simp: detect_boundary_eq targetChunkSize_def)
qed

lemma paragraph_loop_bound:
  assumes "\<forall>c\<in>set (fst st). length c \<le> B" and "length (snd st) < targetChunkSize"
    and "\<forall>p\<in>set ps. length (trim p) \<le> L" and "maxChunkSize + 2 \<le> B" and "minChunkSize + 1 + L \<le> B"
  shows "(\<forall>c\<in>set (fst (paragraph_loop ps st)). length c \<le> B) \<and> length (snd (paragraph_loop ps st)) \<le> B"
  using assms(1,2,3)
proof (induction ps arbitrary: st)
  case Nil
  with assms(4) show ?case by (simp add: targetChunkSize_def maxChunkSize_def)
next
  case (Cons p ps)
  show ?case
  proof (cases "trim p = []")
    case True
    with Cons show ?thesis by simp
  next
    case False
    let ?st1 = "add_paragraph (trim p) st"
    let ?st2 = "detect_boundary (ps \<noteq> []) ?st1"
    from Cons.prems have "length (trim p) \<le> L" by simp
    from add_paragraph_bound [OF Cons.prems(1,2) this assms(4,5)]
    have 1: "\<forall>c\<in>set (fst ?st1). length c \<le> B" "length (snd ?st1) \<le> B" by simp_all
    from detect_boundary_bound [OF 1, of "ps \<noteq> []"]
    have 2: "\<forall>c\<in>set (fst ?st2). length c \<le> B" "length (snd ?st2) \<le> B"
      "ps \<noteq> [] \<longrightarrow> length (snd ?st2) < targetChunkSize" by simp_all
    show ?thesis
    proof (cases "ps = []")
      case True
      with False 2 show ?thesis by simp
    next
      case F: False
      with 2 Cons.prems have "(\<forall>c\<in>set (fst (paragraph_loop ps ?st2)). length c \<le> B) \<and>
          length (snd (paragraph_loop ps ?st2)) \<le> B"
        by (intro Cons.IH) simp_all
      with False show ?thesis by simp
    qed
  qed
qed

lemma push_rest_bound:
  assumes "\<forall>c\<in>set (fst st). length c \<le> B" and "length (snd st) \<le> B"
  shows "\<forall>c\<in>set (push_rest st). length c \<le> B"
proof -
  obtain chunks cur where st: "st = (chunks, cur)" by (cases st)
  have "length (trim cur) \<le> length cur" by (rule length_trim)
  with assms st show ?thesis by (auto simp: push_rest_def)
qed

lemma le_foldr_max: "x \<in> set xs \<Longrightarrow> (x::nat) \<le> foldr max xs 0"
  by (induction xs) auto

lemma longest_paragraph_ge:
  "p \<in> set (js_split paragraph_rx script) \<Longrightarrow> length (trim p) \<le> longest_paragraph script"
  unfolding longest_paragraph_def by (rule le_foldr_max) simp

lemma sentence_no_terminator:
  "\<forall>x\<in>set r. is_ws x \<Longrightarrow> split_loop sentence_rx l piece r = [rev piece @ r]"
proof (induction r arbitrary: l piece)
  case Nil
  then show ?case by simp
next
  case (Cons x r)
  then have "is_ws x" by simp
  then have "x \<noteq> 1748 \<and> x \<noteq> 1567 \<and> x \<noteq> 33" by (auto simp: is_ws_def)
  then have "match_at sentence_rx l (x # r) = None"
    by (simp add: match_at_def sentence_rx_def)
  with Cons show ?case by simp
qed

lemma fallback_blank:
  assumes "non_ws script = []" and "length script > maxChunkSize"
  shows "push_rest (sentence_loop (sentence_units (js_split sentence_rx script)) ([], [])) = [[]]"
proof -
  from assms(1) have ws: "\<forall>x\<in>set script. is_ws x" by (simp add: non_ws_def filter_empty_conv)
  from assms(2) have ne: "script \<noteq> []" by auto
  from ws ne have "js_split sentence_rx script = [script]"
    by (simp add: js_split_def sentence_no_terminator)
  moreover have "trim script = []" using ws by (rule trim_all_ws)
  ultimately show ?thesis
    using assms(2) ne
    by (simp add: add_sentence_def close_at_target_def push_rest_def maxChunkSize_def targetChunkSize_def)
qed

text \<open>
  Claim C2, amended. A paragraph is added to a current chunk that is still below the
  minimum size whatever the total becomes, and otherwise only when the two lengths
  together stay within the maximum (the two line feeds that join them are not counted).
  So every chunk has at most \<open>max (maxChunkSize + 2) (minChunkSize + 1 + P)\<close> units,
  where \<open>P\<close> is the length of the longest trimmed paragraph of the input.
\<close>

theorem splitScriptIntoChunks_size:
  assumes "c \<in> set (splitScriptIntoChunks script)"
  shows "length c \<le> max (maxChunkSize + 2) (minChunkSize + 1 + longest_paragraph script)"
proof -
  let ?B = "max (maxChunkSize + 2) (minChunkSize + 1 + longest_paragraph script)"
  let ?st = "paragraph_loop (js_split paragraph_rx script) ([], [])"
  have "(\<forall>c\<in>set (fst ?st). length c \<le> ?B) \<and> length (snd ?st) \<le> ?B"
    by (rule paragraph_loop_bound [where L = "longest_paragraph script"])
       (simp_all add: longest_paragraph_ge targetChunkSize_def)
  then have 1: "\<forall>c\<in>set (push_rest ?st). length c \<le> ?B" by (intro push_rest_bound) simp_all
  show ?thesis
  proof (cases "push_rest ?st = []")
    case False
    with assms 1 show ?thesis by (auto simp: splitScriptIntoChunks_def Let_def split: if_splits)
  next
    case True
    then have "non_ws (concat (push_rest ?st)) = []" by simp
    then have blank: "non_ws script = []"
      by (simp add: non_ws_push_rest held_paragraph_loop js_split_paragraph_non_ws)
    show ?thesis
    proof (cases "length script > maxChunkSize")
      case L: True
      from fallback_blank [OF blank L] True L assms show ?thesis
        by (auto simp: splitScriptIntoChunks_def Let_def split: if_splits)
    next
      case False
      with True assms show ?thesis
        by (auto simp: splitScriptIntoChunks_def Let_def split: if_splits)
    qed
  qed
qed

theorem splitScriptIntoChunks_size_witness:
  "replicate 1000 97 @ [10, 10] @ replicate 1000 97
     \<in> set (splitScriptIntoChunks (replicate 1000 97 @ [10, 10] @ replicate 1000 97)) \<and>
   length (replicate 1000 (97::nat) @ [10, 10] @ replicate 1000 97)
     \<le> max (maxChunkSize + 2) (minChunkSize + 1 + longest_paragraph (replicate 1000 97 @ [10, 10] @ replicate 1000 97))"
  using splitScriptIntoChunks_size [of "replicate 1000 97 @ [10, 10] @ replicate 1000 97"
      "replicate 1000 97 @ [10, 10] @ replicate 1000 97"] two_paragraphs_example
  by simp

lemma non_ws_all_ws: "\<forall>x\<in>set w. is_ws x \<Longrightarrow> non_ws w = []"
  by (simp add: non_ws_def filter_empty_conv)

lemma split_loop_weave:
  assumes "\<forall>l r l' r' caps. match_at rx l r = Some (l', r', caps) \<longrightarrow>
             caps = [] \<and> (\<exists>w. r = w @ r' \<and> (\<forall>x\<in>set w. is_ws x))"
  shows "\<exists>seps. length (split_loop rx l piece r) = Suc (length seps) \<and>
           non_ws (concat seps) = [] \<and> weave (split_loop rx l piece r) seps = rev piece @ r"
  using assms
proof (induction rx l piece r rule: split_loop.induct)
  case (1 rx l piece)
  have "length [rev piece] = Suc (length ([]::jsstring list)) \<and> non_ws (concat []) = [] \<and>
        weave [rev piece] [] = rev piece @ []" by simp
  then show ?case unfolding split_loop.simps by blast
next
  case (2 rx l piece x r)
  show ?case
  proof (cases "match_at rx l (x # r)")
    case None
    with 2 show ?thesis by simp
  next
    case (Some m)
    obtain l' r' caps where m: "m = (l', r', caps)" by (cases m) auto
    with Some 2(5) obtain w where w: "caps = []" "x # r = w @ r'" "\<forall>x\<in>set w. is_ws x"
      by blast
    show ?thesis
    proof (cases "length r' < length (x # r)")
      case True
      from 2(2) [OF Some m [symmetric] _ True] 2(5) m
      obtain seps where s: "length (split_loop rx l' [] r') = Suc (length seps)"
        "non_ws (concat seps) = []" "weave (split_loop rx l' [] r') seps = r'"
        by auto
      have sl: "split_loop rx l piece (x # r) = rev piece # split_loop rx l' [] r'"
        using Some m True w(1) by simp
      have "length (split_loop rx l piece (x # r)) = Suc (length (w # seps)) \<and>
            non_ws (concat (w # seps)) = [] \<and>
            weave (split_loop rx l piece (x # r)) (w # seps) = rev piece @ x # r"
        using s w(2) non_ws_all_ws [OF w(3)] unfolding sl by simp
      then show ?thesis by blast
    next
      case False
      with w have w0: "w = []" "r' = x # r" by (auto simp: Cons_eq_append_conv)
      show ?thesis
      proof (cases "piece = []")
        case True
        with 2(3) [OF Some m [symmetric] _ False True] 2(5) m Some False show ?thesis by simp
      next
        case F2: False
        from 2(4) [OF Some m [symmetric] _ False F2] 2(5) m
        obtain seps where s: "length (split_loop rx l [] (x # r)) = Suc (length seps)"
          "non_ws (concat seps) = []" "weave (split_loop rx l [] (x # r)) seps = x # r"
          by auto
        have sl: "split_loop rx l piece (x # r) = rev piece # split_loop rx l [] (x # r)"
          using Some m False F2 w(1) by simp
        have "length (split_loop rx l piece (x # r)) = Suc (length ([] # seps)) \<and>
              non_ws (concat ([] # seps)) = [] \<and>
              weave (split_loop rx l piece (x # r)) ([] # seps) = rev piece @ x # r"
          using s unfolding sl by simp
        then show ?thesis by blast
      qed
    qed
  qed
qed

lemma paragraph_rx_empty: "match_at paragraph_rx [] [] = None"
  by (simp add: match_at_def paragraph_rx_def)

lemma js_split_weave:
  "\<exists>seps. length (js_split paragraph_rx script) = Suc (length seps) \<and>
      non_ws (concat seps) = [] \<and> weave (js_split paragraph_rx script) seps = script"
proof (cases "script = []")
  case True
  have "length [[]::jsstring] = Suc (length ([]::jsstring list)) \<and> non_ws (concat []) = [] \<and>
        weave [[]] [] = ([]::jsstring)" by simp
  then show ?thesis using True by (auto simp: js_split_def paragraph_rx_empty)
next
  case False
  have "\<forall>l r l' r' caps. match_at paragraph_rx l r = Some (l', r', caps) \<longrightarrow>
             caps = [] \<and> (\<exists>w. r = w @ r' \<and> (\<forall>x\<in>set w. is_ws x))"
    using paragraph_match by blast
  from split_loop_weave [OF this, of "[]" "[]" script] False show ?thesis
    by (simp add: js_split_def)
qed

lemma join_with_snoc: "g \<noteq> [] \<Longrightarrow> join_with sep (g @ [p]) = join_with sep g @ sep @ p"
  by (induction sep g rule: join_with.induct) auto

lemma join_with_ends:
  assumes "\<forall>p\<in>set g. p \<noteq> []" and "g \<noteq> []"
  shows "join_with sep g \<noteq> [] \<and> hd (join_with sep g) = hd (hd g) \<and>
         last (join_with sep g) = last (last g)"
  using assms by (induction sep g rule: join_with.induct) auto

lemma trim_join_with:
  assumes "\<forall>p\<in>set g. p \<noteq> [] \<and> \<not> is_ws (hd p) \<and> \<not> is_ws (last p)" and "g \<noteq> []"
  shows "trim (join_with sep g) = join_with sep g"
proof -
  from assms have e: "join_with sep g \<noteq> [] \<and> hd (join_with sep g) = hd (hd g) \<and>
         last (join_with sep g) = last (last g)" by (intro join_with_ends) auto
  from assms(2) have "hd g \<in> set g" "last g \<in> set g" by simp_all
  with assms(1) have "\<not> is_ws (hd (hd g))" "\<not> is_ws (last (last g))" by blast+
  with e show ?thesis by (intro trim_id) simp_all
qed

lemma join_with_Nil_iff:
  assumes "\<forall>p\<in>set g. p \<noteq> []"
  shows "join_with sep g = [] \<longleftrightarrow> g = []"
  using join_with_ends [OF assms, of sep] by (cases "g = []") auto

lemma add_paragraph_groups:
  assumes "\<forall>p\<in>set g. p \<noteq> [] \<and> \<not> is_ws (hd p) \<and> \<not> is_ws (last p)"
  shows "\<exists>gs' g'. add_paragraph q (map (join_with [10, 10]) gs, join_with [10, 10] g)
                     = (map (join_with [10, 10]) gs', join_with [10, 10] g') \<and>
           g' \<noteq> [] \<and> ([] \<notin> set gs \<longrightarrow> [] \<notin> set gs') \<and>
           concat gs' @ g' = concat gs @ g @ [q]"
proof (cases "g = []")
  case True
  have "add_paragraph q (map (join_with [10, 10]) gs, join_with [10, 10] g)
          = (map (join_with [10, 10]) gs, join_with [10, 10] [q])"
    using True by (simp add: add_paragraph_def)
  with True show ?thesis by blast
next
  case False
  from trim_join_with [OF assms False] have t: "trim (join_with [10, 10] g) = join_with [10, 10] g" .
  from assms False have ne: "join_with [10, 10] g \<noteq> []" by (simp add: join_with_Nil_iff)
  let ?c = "length (join_with [10, 10] g) + length q > maxChunkSize \<and>
            length (join_with [10, 10] g) \<ge> minChunkSize"
  show ?thesis
  proof (cases ?c)
    case True
    have "add_paragraph q (map (join_with [10, 10]) gs, join_with [10, 10] g)
          = (map (join_with [10, 10]) (gs @ [g]), join_with [10, 10] [q])"
      using True ne t by (simp add: add_paragraph_def)
    moreover have "[] \<notin> set gs \<longrightarrow> [] \<notin> set (gs @ [g])" using False by auto
    moreover have "concat (gs @ [g]) @ [q] = concat gs @ g @ [q]" by simp
    ultimately show ?thesis by blast
  next
    case F: False
    have "add_paragraph q (map (join_with [10, 10]) gs, join_with [10, 10] g)
          = (map (join_with [10, 10]) gs, join_with [10, 10] (g @ [q]))"
      using F ne False by (auto simp: add_paragraph_def join_with_snoc)
    moreover have "g @ [q] \<noteq> []" by simp
    moreover have "concat gs @ (g @ [q]) = concat gs @ g @ [q]" by simp
    ultimately show ?thesis by blast
  qed
qed

lemma detect_boundary_groups:
  assumes "\<forall>p\<in>set g. p \<noteq> [] \<and> \<not> is_ws (hd p) \<and> \<not> is_ws (last p)" and "g \<noteq> []"
  shows "\<exists>gs' g'. detect_boundary notLast (map (join_with [10, 10]) gs, join_with [10, 10] g)
                     = (map (join_with [10, 10]) gs', join_with [10, 10] g') \<and>
           ([] \<notin> set gs \<longrightarrow> [] \<notin> set gs') \<and> concat gs' @ g' = concat gs @ g"
proof (cases "length (join_with [10, 10] g) \<ge> targetChunkSize \<and> notLast")
  case True
  from trim_join_with [OF assms] have t: "trim (join_with [10, 10] g) = join_with [10, 10] g" .
  have "detect_boundary notLast (map (join_with [10, 10]) gs, join_with [10, 10] g)
          = (map (join_with [10, 10]) (gs @ [g]), join_with [10, 10] [])"
    using True t by (simp add: detect_boundary_eq)
  moreover have "[] \<notin> set gs \<longrightarrow> [] \<notin> set (gs @ [g])" using assms(2) by auto
  moreover have "concat (gs @ [g]) @ [] = concat gs @ g" by simp
  ultimately show ?thesis by blast
next
  case False
  then have "detect_boundary notLast (map (join_with [10, 10]) gs, join_with [10, 10] g)
          = (map (join_with [10, 10]) gs, join_with [10, 10] g)"
    by (simp add: detect_boundary_eq)
  then show ?thesis by blast
qed

lemma paragraph_loop_groups:
  assumes "\<forall>p\<in>set (concat gs @ g). p \<noteq> [] \<and> \<not> is_ws (hd p) \<and> \<not> is_ws (last p)"
    and "[] \<notin> set gs"
  shows "\<exists>gs' g'. paragraph_loop ps (map (join_with [10, 10]) gs, join_with [10, 10] g)
                     = (map (join_with [10, 10]) gs', join_with [10, 10] g') \<and>
           [] \<notin> set gs' \<and>
           (\<forall>p\<in>set (concat gs' @ g'). p \<noteq> [] \<and> \<not> is_ws (hd p) \<and> \<not> is_ws (last p)) \<and>
           concat gs' @ g' = concat gs @ g @ filter (\<lambda>p. p \<noteq> []) (map trim ps)"
  using assms
proof (induction ps arbitrary: gs g)
  case Nil
  then show ?case by auto
next
  case (Cons p ps)
  show ?case
  proof (cases "trim p = []")
    case True
    with Cons.IH [OF Cons.prems] show ?thesis by simp
  next
    case False
    let ?q = "trim p"
    from trim_ends [OF False] False
    have q: "?q \<noteq> [] \<and> \<not> is_ws (hd ?q) \<and> \<not> is_ws (last ?q)" by simp
    from Cons.prems(1) have cg: "\<forall>p\<in>set g. p \<noteq> [] \<and> \<not> is_ws (hd p) \<and> \<not> is_ws (last p)"
      by auto
    from add_paragraph_groups [OF cg, of ?q gs] Cons.prems(2)
    obtain gs1 g1 where a: "add_paragraph ?q (map (join_with [10, 10]) gs, join_with [10, 10] g)
                     = (map (join_with [10, 10]) gs1, join_with [10, 10] g1)"
      "g1 \<noteq> []" "[] \<notin> set gs1" "concat gs1 @ g1 = concat gs @ g @ [?q]"
      by blast
    have c1: "\<forall>p\<in>set (concat gs1 @ g1). p \<noteq> [] \<and> \<not> is_ws (hd p) \<and> \<not> is_ws (last p)"
      unfolding a(4) using Cons.prems(1) q by auto
    then have cg1: "\<forall>p\<in>set g1. p \<noteq> [] \<and> \<not> is_ws (hd p) \<and> \<not> is_ws (last p)" by auto
    from detect_boundary_groups [OF cg1 a(2), of "ps \<noteq> []" gs1] a(3)
    obtain gs2 g2 where d: "detect_boundary (ps \<noteq> []) (map (join_with [10, 10]) gs1, join_with [10, 10] g1)
                     = (map (join_with [10, 10]) gs2, join_with [10, 10] g2)"
      "[] \<notin> set gs2" "concat gs2 @ g2 = concat gs1 @ g1"
      by blast
    have c2: "\<forall>p\<in>set (concat gs2 @ g2). p \<noteq> [] \<and> \<not> is_ws (hd p) \<and> \<not> is_ws (last p)"
      unfolding d(3) using c1 .
    have e: "concat gs2 @ g2 @ filter (\<lambda>p. p \<noteq> []) (map trim ps)
             = concat gs @ g @ filter (\<lambda>p. p \<noteq> []) (map trim (p # ps))"
      using arg_cong [OF d(3) [unfolded a(4)], of "\<lambda>xs. xs @ filter (\<lambda>p. p \<noteq> []) (map trim ps)"] False
      by simp
    from Cons.IH [OF c2 d(2)] a(1) d(1) False show ?thesis unfolding e by simp
  qed
qed

lemma push_rest_groups:
  assumes "\<forall>p\<in>set g. p \<noteq> [] \<and> \<not> is_ws (hd p) \<and> \<not> is_ws (last p)"
  shows "push_rest (map (join_with [10, 10]) gs, join_with [10, 10] g)
           = map (join_with [10, 10]) (if g = [] then gs else gs @ [g])"
proof (cases "g = []")
  case True
  then show ?thesis by (simp add: push_rest_def)
next
  case False
  from trim_join_with [OF assms False] have t: "trim (join_with [10, 10] g) = join_with [10, 10] g" .
  from assms False have ne: "join_with [10, 10] g \<noteq> []" by (simp add: join_with_Nil_iff)
  from False t ne show ?thesis by (simp add: push_rest_def)
qed

lemma paragraph_pass_groups:
  "\<exists>groups. [] \<notin> set groups \<and> concat groups = paragraphs script \<and>
     push_rest (paragraph_loop (js_split paragraph_rx script) ([], []))
       = map (join_with [10, 10]) groups"
proof -
  have p1: "\<forall>p\<in>set (concat [] @ []). p \<noteq> [] \<and> \<not> is_ws (hd p) \<and> \<not> is_ws (last p)"
    and p2: "[] \<notin> set ([]::jsstring list list)" by simp_all
  from paragraph_loop_groups [OF p1 p2, of "js_split paragraph_rx script"]
  obtain gs g where l0: "paragraph_loop (js_split paragraph_rx script)
                       (map (join_with [10, 10]) [], join_with [10, 10] [])
                     = (map (join_with [10, 10]) gs, join_with [10, 10] g)"
    and l2: "[] \<notin> set gs"
    and l3: "\<forall>p\<in>set (concat gs @ g). p \<noteq> [] \<and> \<not> is_ws (hd p) \<and> \<not> is_ws (last p)"
    and l5: "concat gs @ g = concat [] @ [] @ filter (\<lambda>p. p \<noteq> []) (map trim (js_split paragraph_rx script))"
    by blast
  from l0 have l1: "paragraph_loop (js_split paragraph_rx script) ([], [])
                     = (map (join_with [10, 10]) gs, join_with [10, 10] g)" by simp
  from l5 have l4: "concat gs @ g = paragraphs script" by (simp add: paragraphs_def)
  note l = l1 l2 l3 l4
  from l(3) have cg: "\<forall>p\<in>set g. p \<noteq> [] \<and> \<not> is_ws (hd p) \<and> \<not> is_ws (last p)" by auto
  let ?G = "if g = [] then gs else gs @ [g]"
  have "[] \<notin> set ?G" using l(2) by auto
  moreover have "concat ?G = paragraphs script" using l(4) by auto
  moreover have "push_rest (paragraph_loop (js_split paragraph_rx script) ([], []))
       = map (join_with [10, 10]) ?G"
    unfolding l(1) by (rule push_rest_groups [OF cg])
  ultimately show ?thesis by blast
qed

lemma paragraphs_Nil: "paragraphs [] = []"
  by (simp add: paragraphs_def js_split_def paragraph_rx_empty)

lemma non_ws_concat_blank: "\<forall>p\<in>set ps. trim p = [] \<Longrightarrow> non_ws (concat ps) = []"
  by (induction ps) (auto simp: non_ws_empty_trim)

lemma paragraphs_Nil_blank:
  assumes "paragraphs script = []"
  shows "non_ws script = []"
proof -
  from assms have "\<forall>p\<in>set (js_split paragraph_rx script). trim p = []"
    by (auto simp: paragraphs_def filter_empty_conv)
  from non_ws_concat_blank [OF this] show ?thesis by (simp add: js_split_paragraph_non_ws)
qed

text \<open>
  Claim C1. The input is its pieces between the matches of \<open>/\n\s*\n/\<close>, with a
  separator of white space only after each piece but the last. The chunks are the
  pieces, each trimmed and the empty ones left out, in the order of the input and each in
  exactly one chunk; the pieces of one chunk are joined by one blank line (two line
  feeds). So the input and the chunks differ only at the split points: in the separators
  and in the white space at the two ends of a piece; white space inside a piece is kept.
  An input with no such piece is white space only: it comes back as it is or, when it is
  longer than the maximum, as one empty chunk. In all cases the chunks, concatenated in
  order, hold exactly the units of the input that are not white space, in the order of
  the input: none is dropped, none is repeated.
\<close>

theorem splitScriptIntoChunks_paragraphs:
  "(\<exists>seps. length (js_split paragraph_rx script) = Suc (length seps) \<and>
      non_ws (concat seps) = [] \<and> weave (js_split paragraph_rx script) seps = script) \<and>
   (\<exists>groups. [] \<notin> set groups \<and> concat groups = paragraphs script \<and>
      splitScriptIntoChunks script =
        (if paragraphs script = []
         then (if script = [] then [] else if length script > maxChunkSize then [[]] else [script])
         else map (join_with [10, 10]) groups)) \<and>
   non_ws (concat (splitScriptIntoChunks script)) = non_ws script"
proof (intro conjI)
  show "\<exists>seps. length (js_split paragraph_rx script) = Suc (length seps) \<and>
      non_ws (concat seps) = [] \<and> weave (js_split paragraph_rx script) seps = script"
    by (rule js_split_weave)
next
  show "non_ws (concat (splitScriptIntoChunks script)) = non_ws script"
    by (rule non_ws_splitScriptIntoChunks)
next
  from paragraph_pass_groups [of script]
  obtain groups where g: "[] \<notin> set groups" "concat groups = paragraphs script"
    "push_rest (paragraph_loop (js_split paragraph_rx script) ([], []))
       = map (join_with [10, 10]) groups"
    by blast
  have "splitScriptIntoChunks script =
        (if paragraphs script = []
         then (if script = [] then [] else if length script > maxChunkSize then [[]] else [script])
         else map (join_with [10, 10]) groups)"
  proof (cases "paragraphs script = []")
    case True
    with g(1,2) have "groups = []" by (cases groups) auto
    with g(3) have e: "push_rest (paragraph_loop (js_split paragraph_rx script) ([], [])) = []"
      by simp
    from paragraphs_Nil_blank [OF True] have b: "non_ws script = []" .
    show ?thesis
      using True e fallback_blank [OF b] by (simp add: splitScriptIntoChunks_def Let_def)
  next
    case False
    with g(2) have "groups \<noteq> []" by auto
    moreover from False have "script \<noteq> []" using paragraphs_Nil by auto
    ultimately show ?thesis using g(3) False by (simp add: splitScriptIntoChunks_def Let_def)
  qed
  with g(1,2) show "\<exists>groups. [] \<notin> set groups \<and> concat groups = paragraphs script \<and>
      splitScriptIntoChunks script =
        (if paragraphs script = []
         then (if script = [] then [] else if length script > maxChunkSize then [[]] else [script])
         else map (join_with [10, 10]) groups)"
    by blast
qed

theorem splitScriptIntoChunks_paragraphs_witness:
  "js_split paragraph_rx (js ''a b '' @ [10, 10] @ js ''c'') = [js ''a b '', js ''c''] \<and>
   weave [js ''a b '', js ''c''] [[10, 10]] = js ''a b '' @ [10, 10] @ js ''c'' \<and>
   paragraphs (js ''a b '' @ [10, 10] @ js ''c'') = [js ''a b'', js ''c''] \<and>
   (\<exists>groups. [] \<notin> set groups \<and> concat groups = [js ''a b'', js ''c''] \<and>
      splitScriptIntoChunks (js ''a b '' @ [10, 10] @ js ''c'') = map (join_with [10, 10]) groups)"
proof -
  let ?s = "js ''a b '' @ [10, 10] @ js ''c''"
  have sp: "js_split paragraph_rx ?s = [js ''a b '', js ''c'']"
    using js_split_two_paragraphs [of "js ''a b ''" "[]" 99] by (simp add: js_def is_ws_def)
  have t: "trim (js ''a b '') = js ''a b''" "trim (js ''c'') = js ''c''"
    by (simp_all add: js_def trim_def is_ws_def)
  have p: "paragraphs ?s = [js ''a b'', js ''c'']"
    unfolding paragraphs_def sp by (simp add: t) (simp add: js_def)
  have w: "weave [js ''a b '', js ''c''] [[10, 10]] = ?s" by simp
  from splitScriptIntoChunks_paragraphs [of ?s] sp p w show ?thesis by simp
qed

lemma sent_send [simp]: "sent (send d w) = sent w @ [d]"
  by (simp add: send_def)

lemma asked_send [simp]: "asked (send d w) = asked w"
  by (simp add: send_def)

lemma currentHeadlines_send [simp]: "currentHeadlines (send d w) = currentHeadlines w"
  by (simp add: send_def)

lemma groups_send [simp]:
  "groupJIDs_content (send d w) = groupJIDs_content w"
  "groupJIDs_demoScript (send d w) = groupJIDs_demoScript w"
  "groupJIDs_demoVisual (send d w) = groupJIDs_demoVisual w"
  by (simp_all add: send_def)

lemma callPerplexityAPI_frame [simp]:
  "sent (snd (callPerplexityAPI svc cfg e w)) = sent w"
  "currentHeadlines (snd (callPerplexityAPI svc cfg e w)) = currentHeadlines w"
  "groupJIDs_content (snd (callPerplexityAPI svc cfg e w)) = groupJIDs_content w"
  "groupJIDs_demoScript (snd (callPerplexityAPI svc cfg e w)) = groupJIDs_demoScript w"
  "groupJIDs_demoVisual (snd (callPerplexityAPI svc cfg e w)) = groupJIDs_demoVisual w"
  by (simp_all add: callPerplexityAPI_def Let_def)

lemma callVisualsAPI_frame [simp]:
  "sent (snd (callVisualsAPI svc cfg e w)) = sent w"
  "currentHeadlines (snd (callVisualsAPI svc cfg e w)) = currentHeadlines w"
  by (simp_all add: callVisualsAPI_def Let_def)

lemma sent_fold_send:
  "sent (fold (\<lambda>c. send (f c)) cs w) = sent w @ map f cs"
  by (induction cs arbitrary: w) auto

lemma currentHeadlines_fold_send [simp]:
  "currentHeadlines (fold (\<lambda>c. send (f c)) cs w) = currentHeadlines w"
  by (induction cs arbitrary: w) auto

lemma currentHeadlines_sendToWhatsAppGroups [simp]:
  "currentHeadlines (sendToWhatsAppGroups script visuals audioPath topic w) = currentHeadlines w"
  by (auto simp: sendToWhatsAppGroups_def Let_def split: option.splits)

text \<open>
  Claim C6. On the editorial path (the topic command, and a plain text in the intake
  group, both of which call \<open>processEditorial\<close>; see
  \<open>handleIncomingMessages_editorial\<close> below), when the text service gives no usable
  result nothing is sent: no heading, no script chunk, no reaction. The same holds when
  the text comes back but the extracted script is empty.
\<close>

theorem processEditorial_silent_abort:
  "(\<not> truthy (fst (callPerplexityAPI svc cfg editorial w)) \<longrightarrow>
      sent (processEditorial svc cfg editorial messageId w) = sent w \<and>
      sent (handleCommand svc cfg (Topic editorial) messageId remoteJid now w) = sent w) \<and>
   (fst (callPerplexityAPI svc cfg editorial w) = Some response \<and>
    fst (extractScriptAndVisuals response) = [] \<longrightarrow>
      sent (processEditorial svc cfg editorial messageId w) = sent w \<and>
      sent (handleCommand svc cfg (Topic editorial) messageId remoteJid now w) = sent w)"
  by (auto simp: processEditorial_def Let_def split_def)

theorem processEditorial_silent_abort_witness:
  "\<not> truthy (fst (callPerplexityAPI
        (answering None)
        example_config (js ''floods in Punjab'') initial_world)) \<and>
   sent (handleCommand
        (answering None)
        example_config (Topic (js ''floods in Punjab'')) (js ''MSG1'') (js ''content@g.us'') 0 initial_world) = [] \<and>
   fst (callPerplexityAPI
        (answering (Some (js ''Vision Point Script---'')))
        example_config (js ''floods in Punjab'') initial_world) = Some (js ''Vision Point Script---'') \<and>
   fst (extractScriptAndVisuals (js ''Vision Point Script---'')) = [] \<and>
   sent (processEditorial
        (answering (Some (js ''Vision Point Script---'')))
        example_config (js ''floods in Punjab'') (js ''MSG1'') initial_world) = []"
proof -
  let ?s1 = "answering None"
  let ?s2 = "answering (Some (js ''Vision Point Script---''))"
  let ?e = "js ''floods in Punjab''"
  have 0: "sent initial_world = []" by (simp add: initial_world_def)
  have 1: "\<not> truthy (fst (callPerplexityAPI ?s1 example_config ?e initial_world))"
    by (simp add: callPerplexityAPI_def Let_def answering_def)
  have 2: "fst (callPerplexityAPI ?s2 example_config ?e initial_world) = Some (js ''Vision Point Script---'')"
    by (simp add: callPerplexityAPI_def Let_def answering_def)
  have 3: "fst (extractScriptAndVisuals (js ''Vision Point Script---'')) = []"
    by (simp add: extractScriptAndVisuals_def js_match_def match_at_def script_rx1_def script_rx2_def
        script_rx3_def lit_i_def js_def canonicalize_def trim_def is_ws_def)
  from processEditorial_silent_abort [where svc = ?s1 and cfg = example_config and editorial = ?e
      and w = initial_world and messageId = "js ''MSG1''" and remoteJid = "js ''content@g.us''" and now = 0] 1 0
  have a: "sent (handleCommand ?s1 example_config (Topic ?e) (js ''MSG1'') (js ''content@g.us'') 0 initial_world) = []"
    by simp
  from processEditorial_silent_abort [where svc = ?s2 and cfg = example_config and editorial = ?e
      and w = initial_world and messageId = "js ''MSG1''" and response = "js ''Vision Point Script---''"] 2 3 0
  have b: "sent (processEditorial ?s2 example_config ?e (js ''MSG1'') initial_world) = []" by simp
  from 1 2 3 a b show ?thesis by blast
qed

lemma search_none:
  "(\<And>l' r'. set r' \<subseteq> set r \<Longrightarrow> run rx (l', r', []) = []) \<Longrightarrow> search rx l r = None"
proof (induction r arbitrary: l)
  case Nil
  then show ?case by (simp add: match_at_def)
next
  case (Cons x r)
  have "run rx (l, x # r, []) = []" by (rule Cons.prems) simp
  moreover have "search rx (x # l) r = None"
    by (rule Cons.IH) (rule Cons.prems, auto)
  ultimately show ?case by (simp add: match_at_def)
qed

lemma run_first_unit:
  "(case r of [] \<Rightarrow> True | x # _ \<Rightarrow> canonicalize x \<noteq> canonicalize u) \<Longrightarrow>
   run (Seq (lit_i (u # p)) k) (l, r, g) = []"
  by (cases r) (simp_all add: lit_i_def)

lemma script_rx_none:
  assumes "\<forall>x\<in>set r. canonicalize x \<noteq> 55357 \<and> canonicalize x \<noteq> 42 \<and> canonicalize x \<noteq> 86"
  shows "js_match script_rx1 r = None" and "js_match script_rx2 r = None"
    and "js_match script_rx3 r = None"
proof -
  have c: "canonicalize 55357 = 55357" "canonicalize 42 = 42" "canonicalize 86 = 86"
    by (simp_all add: canonicalize_def)
  have 1: "run script_rx1 (l', r', []) = []" if "set r' \<subseteq> set r" for l' r'
    unfolding script_rx1_def seqs.simps
    by (rule run_first_unit) (use that assms c in \<open>auto split: list.splits\<close>)
  have 2: "run script_rx2 (l', r', []) = []" if "set r' \<subseteq> set r" for l' r'
    unfolding script_rx2_def seqs.simps js_def list.map of_char_Char
    apply (simp del: run.simps)
    by (rule run_first_unit) (use that assms c in \<open>auto split: list.splits\<close>)
  have 3: "run script_rx3 (l', r', []) = []" if "set r' \<subseteq> set r" for l' r'
    unfolding script_rx3_def seqs.simps js_def list.map
    apply (simp del: run.simps)
    by (rule run_first_unit) (use that assms c in \<open>auto split: list.splits\<close>)
  show "js_match script_rx1 r = None" using search_none [of r script_rx1, OF 1] by (simp add: js_match_def)
  show "js_match script_rx2 r = None" using search_none [of r script_rx2, OF 2] by (simp add: js_match_def)
  show "js_match script_rx3 r = None" using search_none [of r script_rx3, OF 3] by (simp add: js_match_def)
qed

lemma rule_rx_none: "45 \<notin> set r \<Longrightarrow> match_at rule_rx l r = None"
proof (rule ccontr)
  assume n: "45 \<notin> set r" and "match_at rule_rx l r \<noteq> None"
  then obtain m where m: "match_at rule_rx l r = Some m" by auto
  obtain l' r' g' where "m = (l', r', g')" by (cases m)
  with match_at_mem [OF m] have "(l', r', g') \<in> set (run rule_rx (l, r, []))" by simp
  then have "45 \<in> set r"
    by (auto simp: rule_rx_def lit_def js_def rx_mem Bex_def simp del: run.simps)
  with n show False by simp
qed

lemma remove_all_none: "45 \<notin> set r \<Longrightarrow> remove_all rule_rx l r = r"
proof (induction r arbitrary: l)
  case Nil
  then show ?case by simp
next
  case (Cons x r)
  then have "match_at rule_rx l (x # r) = None" by (intro rule_rx_none) simp
  with Cons show ?case by simp
qed

lemma extract_plain:
  assumes "\<forall>x\<in>set r. canonicalize x \<noteq> 55357 \<and> canonicalize x \<noteq> 42 \<and> canonicalize x \<noteq> 86"
    and "45 \<notin> set r" and "trim r = r"
  shows "extractScriptAndVisuals r = (r, [])"
  using script_rx_none [OF assms(1)] assms(2,3)
  by (simp add: extractScriptAndVisuals_def remove_all_none)


lemma trim_no_ws: "\<forall>x\<in>set s. \<not> is_ws x \<Longrightarrow> trim s = s"
proof (cases "s = []")
  case True
  then show ?thesis by simp
next
  case False
  assume "\<forall>x\<in>set s. \<not> is_ws x"
  with False show ?thesis by (intro trim_id) simp_all
qed

lemma chunk_rx_no_ws: "\<not> is_ws x \<Longrightarrow> match_at chunk_rx l (x # r) = None"
  by (simp add: match_at_def chunk_rx_def split: list.splits)

lemma chunk_split_no_ws:
  "\<forall>x\<in>set r. \<not> is_ws x \<Longrightarrow> split_loop chunk_rx l piece r = [rev piece @ r]"
proof (induction r arbitrary: l piece)
  case Nil
  then show ?case by simp
next
  case (Cons x r)
  then have "match_at chunk_rx l (x # r) = None" by (intro chunk_rx_no_ws) simp
  with Cons show ?case by simp
qed

lemma chunk_split_two:
  assumes "\<forall>x\<in>set a. \<not> is_ws x" and "\<forall>x\<in>set b. \<not> is_ws x" and "b \<noteq> []"
  shows "split_loop chunk_rx l piece (a @ 33 # 32 # b) = [rev piece @ a @ [33], b]"
  using assms(1)
proof (induction a arbitrary: l piece)
  case Nil
  from assms(2,3) obtain y b' where b: "b = y # b'" "\<not> is_ws y" by (cases b) auto
  have e: "\<not> is_ws 33" "is_ws 32" by (simp_all add: is_ws_def)
  have 1: "match_at chunk_rx l (33 # 32 # b) = None" using e by (intro chunk_rx_no_ws)
  have 2: "match_at chunk_rx (33 # l) (32 # b) = Some (32 # 33 # l, b, [])"
    using b e by (simp add: match_at_def chunk_rx_def)
  have 3: "split_loop chunk_rx (32 # 33 # l) [] b = [b]"
    using chunk_split_no_ws [OF assms(2), of "32 # 33 # l" "[]"] by simp
  from 1 2 3 show ?case by simp
next
  case (Cons x a)
  then have "match_at chunk_rx l (x # a @ 33 # 32 # b) = None" by (intro chunk_rx_no_ws) simp
  with Cons show ?case by simp
qed

lemma chunk_split_step:
  assumes "\<forall>x\<in>set a. \<not> is_ws x" and "\<not> is_ws y"
  shows "split_loop chunk_rx l piece (a @ 33 # 32 # y # r) =
         (rev piece @ a @ [33]) # split_loop chunk_rx (32 # 33 # rev a @ l) [] (y # r)"
  using assms(1)
proof (induction a arbitrary: l piece)
  case Nil
  have e: "\<not> is_ws 33" "is_ws 32" by (simp_all add: is_ws_def)
  have 1: "match_at chunk_rx l (33 # 32 # y # r) = None" using e by (intro chunk_rx_no_ws)
  have 2: "match_at chunk_rx (33 # l) (32 # y # r) = Some (32 # 33 # l, y # r, [])"
    using assms(2) e by (simp add: match_at_def chunk_rx_def)
  from 1 2 show ?case by simp
next
  case (Cons x a)
  then have "match_at chunk_rx l (x # a @ 33 # 32 # y # r) = None" by (intro chunk_rx_no_ws) simp
  with Cons show ?case by simp
qed

lemma chunkText_single: "\<forall>x\<in>set t. \<not> is_ws x \<Longrightarrow> chunkText t n = [t]"
proof (cases "t = []")
  case True
  then show ?thesis
    by (simp add: chunkText_def js_split_def match_at_def chunk_rx_def add_to_chunk_def push_rest_def
        trim_def is_ws_def)
next
  case False
  assume n: "\<forall>x\<in>set t. \<not> is_ws x"
  have "is_ws 32" by (simp add: is_ws_def)
  then have "trim (t @ [32]) = trim t" by (intro trim_ws_suffix) simp
  with n have "trim (t @ [32]) = t" by (simp add: trim_no_ws)
  with False n show ?thesis
    by (simp add: chunkText_def js_split_def chunk_split_no_ws add_to_chunk_def push_rest_def)
qed

lemma chunkText_two:
  assumes "\<forall>x\<in>set a. \<not> is_ws x" and "\<forall>x\<in>set b. \<not> is_ws x" and "b \<noteq> []"
    and "length (a @ [33, 32] @ b) > n"
  shows "chunkText (a @ [33, 32] @ b) n = [a @ [33], b]"
proof -
  have w: "is_ws 32" "\<not> is_ws 33" by (simp_all add: is_ws_def)
  have "trim ((a @ [33]) @ [32]) = trim (a @ [33])" using w by (intro trim_ws_suffix) simp
  moreover have "trim (a @ [33]) = a @ [33]" using assms(1) w by (intro trim_no_ws) auto
  ultimately have 1: "trim (a @ [33, 32]) = a @ [33]" by simp
  have "trim (b @ [32]) = trim b" using w by (intro trim_ws_suffix) simp
  with assms(2) have 2: "trim (b @ [32]) = b" by (simp add: trim_no_ws)
  have 3: "js_split chunk_rx (a @ [33, 32] @ b) = [a @ [33], b]"
    using chunk_split_two [OF assms(1,2,3), of "[]" "[]"] by (simp add: js_split_def)
  show ?thesis
    using assms(3,4) 1 2 unfolding chunkText_def 3
    by (simp add: add_to_chunk_def push_rest_def)
qed

lemma three_sentences_example:
  "chunkText (replicate 448 97 @ [33, 32] @ replicate 3099 98 @ [33, 32] @ replicate 449 99) 3500 =
     [replicate 448 97 @ [33], replicate 3099 98 @ [33], replicate 449 99]"
proof -
  let ?a = "replicate 448 (97::nat)" and ?b = "replicate 3099 (98::nat)" and ?c = "replicate 449 (99::nat)"
  have w: "is_ws 32" "\<not> is_ws 33" "\<not> is_ws 97" "\<not> is_ws 98" "\<not> is_ws 99" by (simp_all add: is_ws_def)
  have b: "?b = 98 # replicate 3098 98" and c: "?c = 99 # replicate 448 99"
    by (simp_all add: replicate_Suc [symmetric] del: replicate_Suc)
  have "split_loop chunk_rx [] [] (?a @ 33 # 32 # ?b @ 33 # 32 # ?c) =
        [?a @ [33], ?b @ [33], ?c]"
  proof -
    have "split_loop chunk_rx [] [] (?a @ 33 # 32 # 98 # (replicate 3098 98 @ 33 # 32 # ?c)) =
          (?a @ [33]) # split_loop chunk_rx (32 # 33 # rev ?a @ []) [] (98 # (replicate 3098 98 @ 33 # 32 # ?c))"
      using chunk_split_step [of ?a 98 "[]" "[]" "replicate 3098 98 @ 33 # 32 # ?c"] w by simp
    moreover have "split_loop chunk_rx (32 # 33 # rev ?a @ []) [] (?b @ 33 # 32 # 99 # replicate 448 99) =
          (?b @ [33]) # split_loop chunk_rx (32 # 33 # rev ?b @ 32 # 33 # rev ?a @ []) [] (99 # replicate 448 99)"
      using chunk_split_step [of ?b 99 "32 # 33 # rev ?a @ []" "[]" "replicate 448 99"] w by simp
    moreover have "split_loop chunk_rx (32 # 33 # rev ?b @ 32 # 33 # rev ?a @ []) [] ?c = [?c]"
      using chunk_split_no_ws [of ?c "32 # 33 # rev ?b @ 32 # 33 # rev ?a @ []" "[]"] w by simp
    ultimately show ?thesis using b c by simp
  qed
  then have sp: "js_split chunk_rx (?a @ [33, 32] @ ?b @ [33, 32] @ ?c) = [?a @ [33], ?b @ [33], ?c]"
    by (simp add: js_split_def)
  have t: "trim (?a @ 33 # [32]) = ?a @ [33]" "trim (?b @ 33 # [32]) = ?b @ [33]" "trim (?c @ [32]) = ?c"
  proof -
    have "trim ((?a @ [33]) @ [32]) = trim (?a @ [33])" using w by (intro trim_ws_suffix) simp
    moreover have "trim (?a @ [33]) = ?a @ [33]" using w by (intro trim_no_ws) auto
    ultimately show "trim (?a @ 33 # [32]) = ?a @ [33]" by simp
    have "trim ((?b @ [33]) @ [32]) = trim (?b @ [33])" using w by (intro trim_ws_suffix) simp
    moreover have "trim (?b @ [33]) = ?b @ [33]" using w by (intro trim_no_ws) auto
    ultimately show "trim (?b @ 33 # [32]) = ?b @ [33]" by simp
    have "trim (?c @ [32]) = trim ?c" using w by (intro trim_ws_suffix) simp
    moreover have "trim ?c = ?c" using w by (intro trim_no_ws) auto
    ultimately show "trim (?c @ [32]) = ?c" by simp
  qed
  have ne: "?c \<noteq> []" using c by simp
  show ?thesis
    unfolding chunkText_def sp using t ne
    by (simp add: add_to_chunk_def push_rest_def)
qed

text \<open>
  Claim C7 as stated fails: a generated script of 4000 units made of three sentences of
  449, 3100 and 449 units is sent as three chunks, none larger than 3500 units, since
  \<open>chunkText\<close> only closes a chunk at a sentence boundary; the deliveries are the
  heading, the three chunks and the reaction.
\<close>

theorem chunkText_three_chunks_counterexample:
  "length (replicate 448 (97::nat) @ [33, 32] @ replicate 3099 98 @ [33, 32] @ replicate 449 99) = 4000 \<and>
   sent (processEditorial
      (answering (Some (replicate 448 97 @ [33, 32] @ replicate 3099 98 @ [33, 32] @ replicate 449 99)))
      example_config (js ''floods in Punjab'') (js ''MSG1'') initial_world) =
     [TextDelivery (js ''script@g.us'')
        ([55357, 56541] @ js '' Vision Point Script (9 min) '' @ [8212, 32] @ js ''floods in Punjab''),
      TextDelivery (js ''script@g.us'') (replicate 448 97 @ [33]),
      TextDelivery (js ''script@g.us'') (replicate 3099 98 @ [33]),
      TextDelivery (js ''script@g.us'') (replicate 449 99),
      ReactionDelivery (js ''content@g.us'') (js ''MSG1'') [9989]]"
proof -
  let ?r = "replicate 448 (97::nat) @ [33, 32] @ replicate 3099 98 @ [33, 32] @ replicate 449 99"
  have ne: "?r \<noteq> []" by (simp add: replicate_Suc [symmetric] del: replicate_Suc)
  have hl: "hd ?r = 97" "last ?r = 99"
    by (simp_all add: hd_append replicate_Suc [symmetric] del: replicate_Suc)
  have t: "trim ?r = ?r" using ne hl by (intro trim_id) (simp_all add: is_ws_def)
  have ex: "extractScriptAndVisuals ?r = (?r, [])"
    by (rule extract_plain) (use t in \<open>simp_all add: canonicalize_def\<close>)
  show ?thesis
    using ex ne three_sentences_example
    by (simp add: processEditorial_def callPerplexityAPI_def sendToWhatsAppGroups_def Let_def
        initial_world_def send_def js_def answering_def)
qed

lemma star_greedy_first:
  "\<exists>rest. star_greedy c (l, r, g)
      = (rev (takeWhile (in_class c) r) @ l, dropWhile (in_class c) r, g) # rest"
proof (induction r arbitrary: l)
  case Nil
  show ?case by simp
next
  case (Cons x r)
  show ?case
  proof (cases "in_class c x")
    case True
    from Cons [of "x # l"] obtain rest where
      "star_greedy c (x # l, r, g)
        = (rev (takeWhile (in_class c) r) @ x # l, dropWhile (in_class c) r, g) # rest" by blast
    with True show ?thesis by simp
  next
    case False
    then show ?thesis by simp
  qed
qed

lemma chunk_match:
  assumes "match_at chunk_rx l r = Some (l', r', caps)"
  shows "caps = [] \<and> l \<noteq> [] \<and> hd l \<in> {1748, 33, 63} \<and> r \<noteq> [] \<and> is_ws (hd r) \<and>
         r' = dropWhile is_ws r"
proof (cases l)
  case Nil
  with assms show ?thesis by (simp add: match_at_def chunk_rx_def)
next
  case (Cons y l0)
  show ?thesis
  proof (cases r)
    case Nil
    with assms Cons show ?thesis by (simp add: match_at_def chunk_rx_def split: if_splits)
  next
    case (Cons x r0)
    note r = this
    show ?thesis
    proof (cases "y \<in> {1748, 33, 63} \<and> is_ws x")
      case False
      with assms \<open>l = y # l0\<close> r show ?thesis
        by (auto simp: match_at_def chunk_rx_def split: if_splits)
    next
      case True
      have eq: "in_class Space = is_ws" by (rule ext) simp
      from star_greedy_first [of Space "x # l" r0 "[]"] obtain rest where
        sg: "star_greedy Space (x # l, r0, [])
          = (rev (takeWhile is_ws r0) @ x # l, dropWhile is_ws r0, []) # rest"
        unfolding eq by blast
      with assms \<open>l = y # l0\<close> r True sg show ?thesis
        by (auto simp: match_at_def chunk_rx_def)
    qed
  qed
qed

lemma split_loop_not_Nil: "split_loop rx l piece r \<noteq> []"
  by (induction rx l piece r rule: split_loop.induct) (auto split: option.splits)

lemma join_with_Cons: "ps \<noteq> [] \<Longrightarrow> join_with sep (p # ps) = p @ sep @ join_with sep ps"
  by (cases ps) simp_all

lemma join_with_append:
  "a \<noteq> [] \<Longrightarrow> b \<noteq> [] \<Longrightarrow> join_with sep (a @ b) = join_with sep a @ sep @ join_with sep b"
proof (induction a)
  case Nil
  then show ?case by simp
next
  case (Cons p a)
  show ?case
  proof (cases "a = []")
    case True
    with Cons.prems show ?thesis by (simp add: join_with_Cons)
  next
    case False
    with Cons show ?thesis by (simp add: join_with_Cons)
  qed
qed

lemma length_join_with_prefix: "length (join_with sep a) \<le> length (join_with sep (a @ b))"
  by (cases "a = []"; cases "b = []") (simp_all add: join_with_append)

lemma length_join_with_suffix: "length (join_with sep b) \<le> length (join_with sep (a @ b))"
  by (cases "a = []"; cases "b = []") (simp_all add: join_with_append)

lemma chunk_pieces:
  assumes "rx = chunk_rx" and "\<exists>l0. l = piece @ l0" and "rev piece @ r \<noteq> []"
    and "\<not> is_ws (hd (rev piece @ r))" and "\<not> is_ws (last (rev piece @ r))"
  shows "(\<forall>s\<in>set (split_loop rx l piece r). s \<noteq> [] \<and> \<not> is_ws (hd s) \<and> \<not> is_ws (last s)) \<and>
         length (join_with [32] (split_loop rx l piece r)) \<le> length piece + length r"
  using assms
proof (induction rx l piece r rule: split_loop.induct)
  case (1 rx l piece)
  then show ?case by (simp add: hd_rev last_rev)
next
  case (2 rx l piece x r)
  note rx = \<open>rx = chunk_rx\<close>
  show ?case
  proof (cases "match_at rx l (x # r)")
    case None
    from "2.prems" have p: "\<exists>l0. x # l = (x # piece) @ l0" "rev (x # piece) @ r \<noteq> []"
      "\<not> is_ws (hd (rev (x # piece) @ r))" "\<not> is_ws (last (rev (x # piece) @ r))"
      by auto
    from "2.IH"(1) [OF None rx p] None show ?thesis by simp
  next
    case (Some m)
    obtain l' r' caps where m: "m = (l', r', caps)" by (cases m) auto
    from Some m rx have "match_at chunk_rx l (x # r) = Some (l', r', caps)" by simp
    from chunk_match [OF this]
    have c: "caps = []" "l \<noteq> []" "hd l \<in> {1748, 33, 63}" "is_ws x" "r' = dropWhile is_ws r"
      by simp_all
    have lt: "length r' < length (x # r)"
      unfolding c(5) using length_dropWhile_le [of is_ws r] by simp
    have pne: "piece \<noteq> []"
    proof
      assume "piece = []"
      with "2.prems"(4) c(4) show False by simp
    qed
    with "2.prems"(2) have hp: "hd piece = hd l" by auto
    have t: "\<not> is_ws (hd piece)" using hp c(3) by (auto simp: is_ws_def)
    have h: "\<not> is_ws (hd (rev piece))" using "2.prems"(4) pne by simp
    have lst: "\<not> is_ws (last (x # r))" using "2.prems"(5) by simp
    have rne: "r' \<noteq> []"
    proof
      assume "r' = []"
      then have "\<forall>y\<in>set r. is_ws y" unfolding c(5) by (simp add: dropWhile_eq_Nil_conv)
      with c(4) have "is_ws (last (x # r))" by (cases "r = []") auto
      with lst show False by simp
    qed
    have hr: "\<not> is_ws (hd r')" using rne unfolding c(5) by (rule hd_dropWhile)
    have lr: "last r' = last (x # r)"
      using rne last_dropWhile [of is_ws r] rne unfolding c(5) by (cases "r = []") auto
    have p: "\<exists>l0. l' = [] @ l0" "rev [] @ r' \<noteq> []" "\<not> is_ws (hd (rev [] @ r'))"
      "\<not> is_ws (last (rev [] @ r'))"
      using rne hr lr lst by simp_all
    from "2.IH"(2) [OF Some m [symmetric] refl lt rx p]
    have ih: "\<forall>s\<in>set (split_loop rx l' [] r'). s \<noteq> [] \<and> \<not> is_ws (hd s) \<and> \<not> is_ws (last s)"
      "length (join_with [32] (split_loop rx l' [] r')) \<le> length r'"
      by simp_all
    have sl: "split_loop rx l piece (x # r) = rev piece # split_loop rx l' [] r'"
      using Some m lt c(1) by simp
    have len: "length r' \<le> length r" unfolding c(5) by (rule length_dropWhile_le)
    have "\<forall>s\<in>set (split_loop rx l piece (x # r)). s \<noteq> [] \<and> \<not> is_ws (hd s) \<and> \<not> is_ws (last s)"
      unfolding sl using ih(1) pne h t by (simp add: last_rev)
    moreover have "length (join_with [32] (split_loop rx l piece (x # r))) \<le> length piece + length (x # r)"
      unfolding sl using ih(2) len by (simp add: join_with_Cons split_loop_not_Nil)
    ultimately show ?thesis by blast
  qed
qed

lemma chunk_rx_empty: "match_at chunk_rx [] [] = None"
  by (simp add: match_at_def chunk_rx_def)

lemma chunk_sentences:
  assumes "trim script = script" and "script \<noteq> []"
  shows "(\<forall>s\<in>set (js_split chunk_rx script). s \<noteq> [] \<and> \<not> is_ws (hd s) \<and> \<not> is_ws (last s)) \<and>
         length (join_with [32] (js_split chunk_rx script)) \<le> length script"
proof -
  from assms trim_ends [of script] have e: "\<not> is_ws (hd script)" "\<not> is_ws (last script)" by simp_all
  have p: "\<exists>l0. ([]::jsstring) = [] @ l0" "rev [] @ script \<noteq> []"
    "\<not> is_ws (hd (rev [] @ script))" "\<not> is_ws (last (rev [] @ script))"
    using assms(2) e by simp_all
  from chunk_pieces [OF refl p] assms(2) show ?thesis by (simp add: js_split_def)
qed

lemma extract_trimmed:
  assumes "extractScriptAndVisuals response = (script, visuals)"
  shows "trim script = script"
  using assms by (auto simp: extractScriptAndVisuals_def Let_def trim_trim split: if_splits)

lemma join_with_spaced:
  "join_with [32] (g @ [s]) = concat (map (\<lambda>s. s @ [32]) g) @ s"
  by (induction g) (simp_all add: join_with_Cons)

lemma spaced_join_with:
  "g \<noteq> [] \<Longrightarrow> concat (map (\<lambda>s. s @ [32]) g) = join_with [32] g @ [32]"
  using join_with_spaced [of "butlast g" "last g"] by (cases g rule: rev_cases) auto

lemma spaced_Nil_iff: "concat (map (\<lambda>s. s @ [32]) g) = [] \<longleftrightarrow> g = []"
  by (cases g) simp_all

lemma add_to_chunk_spaced:
  "add_to_chunk n s (chunks, concat (map (\<lambda>s. s @ [32]) g)) =
     (if n < length (join_with [32] (g @ [s])) \<and> g \<noteq> []
      then (chunks @ [trim (concat (map (\<lambda>s. s @ [32]) g))], concat (map (\<lambda>s. s @ [32]) [s]))
      else (chunks, concat (map (\<lambda>s. s @ [32]) (g @ [s]))))"
  unfolding add_to_chunk_def join_with_spaced
  by (cases "g = []") (auto simp: Let_def)

lemma chunkText_loop_fits:
  "length (join_with [32] (g @ ss)) \<le> n \<Longrightarrow>
   chunkText_loop n ss (chunks, concat (map (\<lambda>s. s @ [32]) g))
     = (chunks, concat (map (\<lambda>s. s @ [32]) (g @ ss)))"
proof (induction ss arbitrary: g)
  case Nil
  show ?case by simp
next
  case (Cons s ss)
  have "length (join_with [32] (g @ [s])) \<le> length (join_with [32] ((g @ [s]) @ ss))"
    by (rule length_join_with_prefix)
  with Cons.prems have f: "length (join_with [32] (g @ [s])) \<le> n" by simp
  from Cons.prems have "length (join_with [32] ((g @ [s]) @ ss)) \<le> n" by simp
  from Cons.IH [OF this] f show ?case
    unfolding chunkText_loop.simps add_to_chunk_spaced by simp
qed

lemma chunkText_loop_append:
  "chunkText_loop n (a @ b) st = chunkText_loop n b (chunkText_loop n a st)"
  by (induction a arbitrary: st) simp_all

lemma trim_spaced:
  assumes "\<forall>p\<in>set g. p \<noteq> [] \<and> \<not> is_ws (hd p) \<and> \<not> is_ws (last p)" and "g \<noteq> []"
  shows "trim (concat (map (\<lambda>s. s @ [32]) g)) = join_with [32] g"
proof -
  have "\<forall>x\<in>set [32]. is_ws x" by (simp add: is_ws_def)
  from trim_ws_suffix [OF this, of "join_with [32] g"] trim_join_with [OF assms, of "[32]"]
  show ?thesis by (simp add: spaced_join_with [OF assms(2)])
qed

lemma pack_one:
  assumes "\<forall>p\<in>set ss. p \<noteq> [] \<and> \<not> is_ws (hd p) \<and> \<not> is_ws (last p)" and "ss \<noteq> []"
    and "length (join_with [32] ss) \<le> n"
  shows "push_rest (chunkText_loop n ss ([], [])) = [join_with [32] ss]"
proof -
  from assms(3) have "length (join_with [32] ([] @ ss)) \<le> n" by simp
  from chunkText_loop_fits [OF this, of "[]"]
  have l: "chunkText_loop n ss ([], []) = ([], concat (map (\<lambda>s. s @ [32]) ss))" by simp
  have t: "trim (concat (map (\<lambda>s. s @ [32]) ss)) = join_with [32] ss"
    by (rule trim_spaced [OF assms(1,2)])
  from assms(1,2) have ne: "join_with [32] ss \<noteq> []" by (simp add: join_with_Nil_iff)
  show ?thesis unfolding l push_rest_def using t ne by simp
qed

lemma pack_two:
  assumes clean: "\<forall>p\<in>set ss. p \<noteq> [] \<and> \<not> is_ws (hd p) \<and> \<not> is_ws (last p)"
    and k: "0 < k" "k < length ss"
    and first: "length (join_with [32] (take k ss)) \<le> n"
    and more: "n < length (join_with [32] (take (Suc k) ss))"
    and rest: "length (join_with [32] (drop k ss)) \<le> n"
  shows "push_rest (chunkText_loop n ss ([], []))
           = [join_with [32] (take k ss), join_with [32] (drop k ss)]"
proof -
  let ?a = "take k ss" and ?b = "drop (Suc k) ss" and ?s = "ss ! k"
  have ss: "ss = ?a @ ?s # ?b" using k(2) by (simp add: id_take_nth_drop [symmetric])
  have d: "drop k ss = ?s # ?b" using k(2) by (simp add: Cons_nth_drop_Suc)
  have tk: "take (Suc k) ss = ?a @ [?s]" using k(2) by (simp add: take_Suc_conv_app_nth)
  have ane: "?a \<noteq> []" using k by auto
  from first have "length (join_with [32] ([] @ ?a)) \<le> n" by simp
  from chunkText_loop_fits [OF this, of "[]"]
  have 1: "chunkText_loop n ?a ([], []) = ([], concat (map (\<lambda>s. s @ [32]) ?a))" by simp
  have 2: "add_to_chunk n ?s ([], concat (map (\<lambda>s. s @ [32]) ?a))
           = ([trim (concat (map (\<lambda>s. s @ [32]) ?a))], concat (map (\<lambda>s. s @ [32]) [?s]))"
    unfolding add_to_chunk_spaced using more ane unfolding tk by simp
  from rest have "length (join_with [32] ([?s] @ ?b)) \<le> n" unfolding d by simp
  from chunkText_loop_fits [OF this]
  have 3: "chunkText_loop n ?b (chunks, concat (map (\<lambda>s. s @ [32]) [?s]))
           = (chunks, concat (map (\<lambda>s. s @ [32]) (drop k ss)))" for chunks
    unfolding d by simp
  have "chunkText_loop n ss ([], []) = chunkText_loop n (?s # ?b) (chunkText_loop n ?a ([], []))"
    using chunkText_loop_append [of n ?a "?s # ?b" "([], [])"] ss by simp
  then have l: "chunkText_loop n ss ([], [])
           = ([trim (concat (map (\<lambda>s. s @ [32]) ?a))], concat (map (\<lambda>s. s @ [32]) (drop k ss)))"
    unfolding 1 chunkText_loop.simps 2 3 .
  have ca: "\<forall>p\<in>set ?a. p \<noteq> [] \<and> \<not> is_ws (hd p) \<and> \<not> is_ws (last p)"
    using clean by (meson in_set_takeD)
  have cd: "\<forall>p\<in>set (drop k ss). p \<noteq> [] \<and> \<not> is_ws (hd p) \<and> \<not> is_ws (last p)"
    using clean by (meson in_set_dropD)
  have dne: "drop k ss \<noteq> []" using k(2) by simp
  have ta: "trim (concat (map (\<lambda>s. s @ [32]) ?a)) = join_with [32] ?a"
    by (rule trim_spaced [OF ca ane])
  have td: "trim (concat (map (\<lambda>s. s @ [32]) (drop k ss))) = join_with [32] (drop k ss)"
    by (rule trim_spaced [OF cd dne])
  from cd dne have ne: "join_with [32] (drop k ss) \<noteq> []" by (simp add: join_with_Nil_iff)
  show ?thesis unfolding l push_rest_def using ta td ne by simp
qed

lemma chunkText_one_chunk:
  assumes "trim script = script" and "script \<noteq> []"
    and "length (join_with [32] (js_split chunk_rx script)) \<le> n"
  shows "chunkText script n = [join_with [32] (js_split chunk_rx script)]"
proof -
  from chunk_sentences [OF assms(1,2)]
  have c: "\<forall>s\<in>set (js_split chunk_rx script). s \<noteq> [] \<and> \<not> is_ws (hd s) \<and> \<not> is_ws (last s)"
    by simp
  have ne: "js_split chunk_rx script \<noteq> []"
    using assms(2) by (simp add: js_split_def split_loop_not_Nil)
  from pack_one [OF c ne assms(3)] show ?thesis by (simp add: chunkText_def)
qed

lemma chunkText_two_chunks:
  assumes "trim script = script"
    and "0 < k" and "k < length (js_split chunk_rx script)"
    and "length (join_with [32] (take k (js_split chunk_rx script))) \<le> n"
    and "n < length (join_with [32] (take (Suc k) (js_split chunk_rx script)))"
    and "length (join_with [32] (drop k (js_split chunk_rx script))) \<le> n"
  shows "chunkText script n = [join_with [32] (take k (js_split chunk_rx script)),
                               join_with [32] (drop k (js_split chunk_rx script))]"
proof -
  have ne: "script \<noteq> []"
  proof
    assume "script = []"
    with assms(2,3) show False by (simp add: js_split_def chunk_rx_empty)
  qed
  from chunk_sentences [OF assms(1) ne]
  have c: "\<forall>s\<in>set (js_split chunk_rx script). s \<noteq> [] \<and> \<not> is_ws (hd s) \<and> \<not> is_ws (last s)"
    by simp
  from pack_two [OF c assms(2-6)] show ?thesis by (simp add: chunkText_def)
qed

lemma chunkText_count:
  assumes t: "trim script = script" and len: "length script = 4000"
    and big: "3500 < length (join_with [32] (js_split chunk_rx script))"
    and sn: "\<forall>s\<in>set (js_split chunk_rx script). length s \<le> 3001"
  shows "length (chunkText script 3500) = 2"
proof -
  let ?ss = "js_split chunk_rx script"
  let ?P = "\<lambda>j. 3500 < length (join_with [32] (take j ?ss))"
  define m where "m = (LEAST j. ?P j)"
  from len have ne: "script \<noteq> []" by auto
  from chunk_sentences [OF t ne] len
  have tot: "length (join_with [32] ?ss) \<le> 4000" by simp
  have Pn: "?P (length ?ss)" using big by simp
  then have Pm: "?P m" unfolding m_def by (rule LeastI)
  have mle: "m \<le> length ?ss" unfolding m_def using Pn by (rule Least_le)
  have least: "\<not> ?P j" if "j < m" for j using that not_less_Least unfolding m_def by blast
  have sne: "?ss \<noteq> []" using ne by (simp add: js_split_def split_loop_not_Nil)
  have m0: "m \<noteq> 0" using Pm by (cases "m = 0") simp_all
  have m1: "m \<noteq> 1"
  proof
    assume "m = 1"
    with Pm sne have "3500 < length (hd ?ss)" by (cases ?ss) simp_all
    moreover from sne sn have "length (hd ?ss) \<le> 3001" by simp
    ultimately show False by simp
  qed
  define k where "k = m - 1"
  from m0 m1 have k: "0 < k" "Suc k = m" by (simp_all add: k_def)
  with mle have kl: "k < length ?ss" by simp
  from least [of k] k have first: "length (join_with [32] (take k ?ss)) \<le> 3500" by simp
  from Pm k have more: "3500 < length (join_with [32] (take (Suc k) ?ss))" by simp
  have ane: "take k ?ss \<noteq> []" using k(1) kl by auto
  have dne: "drop k ?ss \<noteq> []" using kl by simp
  have "take (Suc k) ?ss = take k ?ss @ [?ss ! k]" using kl by (simp add: take_Suc_conv_app_nth)
  then have "length (join_with [32] (take (Suc k) ?ss))
               = length (join_with [32] (take k ?ss)) + 1 + length (?ss ! k)"
    using ane by (simp add: join_with_snoc)
  moreover have "length (?ss ! k) \<le> 3001" using sn kl by simp
  ultimately have lower: "499 \<le> length (join_with [32] (take k ?ss))" using more by simp
  have "join_with [32] (take k ?ss @ drop k ?ss)
          = join_with [32] (take k ?ss) @ [32] @ join_with [32] (drop k ?ss)"
    by (rule join_with_append [OF ane dne])
  then have "length (join_with [32] ?ss)
          = length (join_with [32] (take k ?ss)) + 1 + length (join_with [32] (drop k ?ss))"
    by simp
  with tot lower have rest: "length (join_with [32] (drop k ?ss)) \<le> 3500" by simp
  from chunkText_two_chunks [OF t k(1) kl first more rest] show ?thesis by simp
qed

lemma chunk_match_some:
  assumes "t \<in> {1748, 33, 63}" and "is_ws y"
  shows "\<exists>l'. match_at chunk_rx (t # l) (y # r) = Some (l', dropWhile is_ws (y # r), [])"
proof -
  have eq: "in_class Space = is_ws" by (rule ext) simp
  from star_greedy_first [of Space "y # t # l" r "[]"] obtain rest where
    "star_greedy Space (y # t # l, r, [])
       = (rev (takeWhile is_ws r) @ y # t # l, dropWhile is_ws r, []) # rest"
    unfolding eq by blast
  with assms show ?thesis by (auto simp: match_at_def chunk_rx_def)
qed

lemma chunk_split_gap:
  assumes "\<forall>x\<in>set a. \<not> is_ws x" and "\<forall>x\<in>set b. \<not> is_ws x" and "b \<noteq> []"
    and "\<forall>x\<in>set g. is_ws x" and "g \<noteq> []" and "t \<in> {1748, 33, 63}"
  shows "split_loop chunk_rx l piece (a @ t # g @ b) = [rev piece @ a @ [t], b]"
  using assms(1)
proof (induction a arbitrary: l piece)
  case Nil
  from assms(4,5) obtain y g' where g: "g = y # g'" "is_ws y" by (cases g) auto
  from assms(6) have e: "\<not> is_ws t" by (auto simp: is_ws_def)
  from assms(2,3) have "dropWhile is_ws b = b" by (cases b) auto
  with assms(4) have d: "dropWhile is_ws (g @ b) = b" by (simp add: dropWhile_append2)
  have 1: "match_at chunk_rx l (t # g @ b) = None" using e by (intro chunk_rx_no_ws)
  from chunk_match_some [OF assms(6) g(2), of l "g' @ b"] d g obtain l' where
    2: "match_at chunk_rx (t # l) (y # g' @ b) = Some (l', b, [])" by auto
  have 3: "split_loop chunk_rx l' [] b = [b]"
    using chunk_split_no_ws [OF assms(2), of l' "[]"] by simp
  have "length b < Suc (length g' + length b)" by simp
  with 1 2 3 g show ?case by simp
next
  case (Cons x a)
  then have "match_at chunk_rx l (x # a @ t # g @ b) = None" by (intro chunk_rx_no_ws) simp
  with Cons show ?case by simp
qed

lemma chunkText_wide_gap_example:
  "length (replicate 999 (97::nat) @ [33] @ replicate 2000 32 @ replicate 1000 98) = 4000 \<and>
   chunkText (replicate 999 97 @ [33] @ replicate 2000 32 @ replicate 1000 98) 3500
     = [replicate 999 97 @ [33, 32] @ replicate 1000 98]"
proof -
  let ?a = "replicate 999 (97::nat)" and ?g = "replicate 2000 (32::nat)"
    and ?b = "replicate 1000 (98::nat)"
  let ?r = "?a @ [33] @ ?g @ ?b"
  have a: "\<forall>x\<in>set ?a. \<not> is_ws x" and b: "\<forall>x\<in>set ?b. \<not> is_ws x"
    and g: "\<forall>x\<in>set ?g. is_ws x"
    by (auto simp: is_ws_def)
  have ne: "?b \<noteq> []" "?g \<noteq> []" "?r \<noteq> []"
    by (simp_all add: replicate_Suc [symmetric] del: replicate_Suc)
  have hl: "hd ?r = 97" "last ?r = 98"
    by (simp_all add: hd_append replicate_Suc [symmetric] del: replicate_Suc)
  have t: "trim ?r = ?r" using ne(3) hl by (intro trim_id) (simp_all add: is_ws_def)
  have sp: "js_split chunk_rx ?r = [?a @ [33], ?b]"
    using chunk_split_gap [OF a b ne(1) g ne(2), of 33 "[]" "[]"] ne(3)
    by (simp add: js_split_def)
  have "length (join_with [32] (js_split chunk_rx ?r)) \<le> 3500" unfolding sp by simp
  from chunkText_one_chunk [OF t ne(3) this] show ?thesis unfolding sp by simp
qed

text \<open>
  Claim C7, amended. On success the editorial path sends, in this order: the heading,
  one text per chunk of \<open>chunkText script 3500\<close> in chunk order, and the check-mark
  reaction to the original message in the intake group; no audio is sent.
  \<open>chunkText\<close> packs whole sentences (the pieces of the script between the runs of
  white space that follow a terminator), joined by one space, into a chunk for as long
  as they fit in 3500 units: when the first \<open>k\<close> sentences joined fit, one more does
  not, and the sentences that remain fit when joined, the chunks are exactly these two
  groups. In particular a generated script of 4000 units in which no sentence has more
  than 3001 units, and whose sentences joined by single spaces take more than 3500 units,
  gives exactly two chunks. The last condition is needed since wide white space between
  sentences is replaced by one space: see \<open>chunkText_wide_gap_example\<close> above, a script
  of 4000 units sent as one chunk.
\<close>

theorem processEditorial_deliveries:
  "(fst (callPerplexityAPI svc cfg editorial w) = Some response \<and> response \<noteq> [] \<and>
    extractScriptAndVisuals response = (script, visuals) \<and> script \<noteq> [] \<longrightarrow>
      sent (processEditorial svc cfg editorial messageId w) =
        sent w @
        [TextDelivery (groupJIDs_demoScript w)
           ([55357, 56541] @ js '' Vision Point Script (9 min) '' @ [8212, 32] @
            take 50 editorial @ (if length editorial > 50 then js ''...'' else []))] @
        map (TextDelivery (groupJIDs_demoScript w)) (chunkText script 3500) @
        [ReactionDelivery (groupJIDs_content w) messageId [9989]]) \<and>
   (extractScriptAndVisuals response = (script, visuals) \<and>
    0 < k \<and> k < length (js_split chunk_rx script) \<and>
    length (join_with [32] (take k (js_split chunk_rx script))) \<le> 3500 \<and>
    3500 < length (join_with [32] (take (Suc k) (js_split chunk_rx script))) \<and>
    length (join_with [32] (drop k (js_split chunk_rx script))) \<le> 3500 \<longrightarrow>
      chunkText script 3500 = [join_with [32] (take k (js_split chunk_rx script)),
                               join_with [32] (drop k (js_split chunk_rx script))]) \<and>
   (extractScriptAndVisuals response = (script, visuals) \<and> length script = 4000 \<and>
    3500 < length (join_with [32] (js_split chunk_rx script)) \<and>
    (\<forall>s\<in>set (js_split chunk_rx script). length s \<le> 3001) \<longrightarrow>
      length (chunkText script 3500) = 2)"
proof (intro conjI impI)
  assume "fst (callPerplexityAPI svc cfg editorial w) = Some response \<and> response \<noteq> [] \<and>
    extractScriptAndVisuals response = (script, visuals) \<and> script \<noteq> []"
  then show "sent (processEditorial svc cfg editorial messageId w) =
        sent w @
        [TextDelivery (groupJIDs_demoScript w)
           ([55357, 56541] @ js '' Vision Point Script (9 min) '' @ [8212, 32] @
            take 50 editorial @ (if length editorial > 50 then js ''...'' else []))] @
        map (TextDelivery (groupJIDs_demoScript w)) (chunkText script 3500) @
        [ReactionDelivery (groupJIDs_content w) messageId [9989]]"
    by (simp add: processEditorial_def sendToWhatsAppGroups_def Let_def split_def sent_fold_send)
next
  assume h: "extractScriptAndVisuals response = (script, visuals) \<and>
    0 < k \<and> k < length (js_split chunk_rx script) \<and>
    length (join_with [32] (take k (js_split chunk_rx script))) \<le> 3500 \<and>
    3500 < length (join_with [32] (take (Suc k) (js_split chunk_rx script))) \<and>
    length (join_with [32] (drop k (js_split chunk_rx script))) \<le> 3500"
  then have t: "trim script = script" by (intro extract_trimmed [of response script visuals]) simp
  from h show "chunkText script 3500 = [join_with [32] (take k (js_split chunk_rx script)),
                               join_with [32] (drop k (js_split chunk_rx script))]"
    by (intro chunkText_two_chunks [OF t]) simp_all
next
  assume h: "extractScriptAndVisuals response = (script, visuals) \<and> length script = 4000 \<and>
    3500 < length (join_with [32] (js_split chunk_rx script)) \<and>
    (\<forall>s\<in>set (js_split chunk_rx script). length s \<le> 3001)"
  then have t: "trim script = script" by (intro extract_trimmed [of response script visuals]) simp
  from h show "length (chunkText script 3500) = 2"
    by (intro chunkText_count [OF t]) simp_all
qed

theorem processEditorial_deliveries_witness:
  "length (replicate 1999 (97::nat) @ [33, 32] @ replicate 1999 98) = 4000 \<and>
   js_split chunk_rx (replicate 1999 97 @ [33, 32] @ replicate 1999 98)
     = [replicate 1999 97 @ [33], replicate 1999 98] \<and>
   length (chunkText (replicate 1999 97 @ [33, 32] @ replicate 1999 98) 3500) = 2 \<and>
   sent (processEditorial
      (answering (Some (replicate 1999 97 @ [33, 32] @ replicate 1999 98)))
      example_config (js ''floods in Punjab'') (js ''MSG1'') initial_world) =
     [TextDelivery (js ''script@g.us'')
        ([55357, 56541] @ js '' Vision Point Script (9 min) '' @ [8212, 32] @ js ''floods in Punjab''),
      TextDelivery (js ''script@g.us'') (replicate 1999 97 @ [33]),
      TextDelivery (js ''script@g.us'') (replicate 1999 98),
      ReactionDelivery (js ''content@g.us'') (js ''MSG1'') [9989]]"
proof -
  let ?a = "replicate 1999 (97::nat)" and ?b = "replicate 1999 (98::nat)"
  let ?r = "?a @ [33, 32] @ ?b"
  let ?svc = "answering (Some ?r)"
  have len: "length ?r = 4000" by simp
  have ne: "?r \<noteq> []" "?b \<noteq> []" by (simp_all add: replicate_Suc [symmetric] del: replicate_Suc)
  have hl: "hd ?r = 97" "last ?r = 98"
    by (simp_all add: hd_append replicate_Suc [symmetric] del: replicate_Suc)
  have t: "trim ?r = ?r" using ne hl by (intro trim_id) (simp_all add: is_ws_def)
  have ex: "extractScriptAndVisuals ?r = (?r, [])"
    by (rule extract_plain) (use t in \<open>simp_all add: canonicalize_def\<close>)
  have call: "fst (callPerplexityAPI ?svc example_config (js ''floods in Punjab'') initial_world) = Some ?r"
    by (simp add: callPerplexityAPI_def Let_def answering_def)
  have a: "\<forall>x\<in>set ?a. \<not> is_ws x" and b: "\<forall>x\<in>set ?b. \<not> is_ws x" by (auto simp: is_ws_def)
  have sp: "js_split chunk_rx ?r = [?a @ [33], ?b]"
    using chunk_split_two [OF a b ne(2), of "[]" "[]"] ne(1) by (simp add: js_split_def)
  have k: "0 < (1::nat)" "1 < length (js_split chunk_rx ?r)"
    "length (join_with [32] (take 1 (js_split chunk_rx ?r))) \<le> 3500"
    "3500 < length (join_with [32] (take (Suc 1) (js_split chunk_rx ?r)))"
    "length (join_with [32] (drop 1 (js_split chunk_rx ?r))) \<le> 3500"
    unfolding sp by simp_all
  have c: "3500 < length (join_with [32] (js_split chunk_rx ?r))"
    "\<forall>s\<in>set (js_split chunk_rx ?r). length s \<le> 3001"
    unfolding sp by simp_all
  note inst = processEditorial_deliveries [where svc = ?svc and cfg = example_config
      and editorial = "js ''floods in Punjab''" and w = initial_world and response = ?r and script = ?r
      and visuals = "[]" and messageId = "js ''MSG1''" and k = 1]
  from inst ex k have two: "chunkText ?r 3500 = [join_with [32] (take 1 (js_split chunk_rx ?r)),
                               join_with [32] (drop 1 (js_split chunk_rx ?r))]" by blast
  from inst ex len c have cnt: "length (chunkText ?r 3500) = 2" by blast
  from inst call ne ex have "sent (processEditorial ?svc example_config (js ''floods in Punjab'') (js ''MSG1'') initial_world) =
        sent initial_world @
        [TextDelivery (groupJIDs_demoScript initial_world)
           ([55357, 56541] @ js '' Vision Point Script (9 min) '' @ [8212, 32] @
            take 50 (js ''floods in Punjab'') @ (if length (js ''floods in Punjab'') > 50 then js ''...'' else []))] @
        map (TextDelivery (groupJIDs_demoScript initial_world)) (chunkText ?r 3500) @
        [ReactionDelivery (groupJIDs_content initial_world) (js ''MSG1'') [9989]]"
    by blast
  with two [unfolded sp] cnt sp len show ?thesis by (simp add: initial_world_def js_def)
qed

lemma audio_chunk_loop_eq:
  "audio_chunk_loop svc v cs acc = acc @ List.map_filter (\<lambda>c. generateSingleAudioChunk svc c v) cs"
  by (induction cs arbitrary: acc) (auto simp: map_filter_simps split: option.splits)

lemma splitScriptIntoChunks_Nil [simp]: "splitScriptIntoChunks [] = []"
  by (simp add: splitScriptIntoChunks_def)

text \<open>
  Claim C8. The audio of a script is the concatenation, in chunk order, of the audio of
  the chunks whose synthesis succeeds; a chunk that fails is skipped. There is no audio
  exactly when no chunk succeeds, and then the reply is the failure text.
\<close>

theorem generateAudio_partial_success:
  "generateAudio svc cfg script =
     (let ok = List.map_filter (\<lambda>chunk. generateSingleAudioChunk svc chunk (ELEVENLABS_VOICE_ID cfg))
                 (splitScriptIntoChunks script)
      in if ok = [] then None else Some (concat ok)) \<and>
   sent (processVoiceOnly svc cfg script messageId remoteJid w) =
     sent w @ [case generateAudio svc cfg script of
                 None \<Rightarrow> TextDelivery remoteJid failed_voice
               | Some audio \<Rightarrow> AudioDelivery remoteJid audio False]"
proof
  let ?v = "ELEVENLABS_VOICE_ID cfg"
  let ?cs = "splitScriptIntoChunks script"
  show "generateAudio svc cfg script =
     (let ok = List.map_filter (\<lambda>chunk. generateSingleAudioChunk svc chunk ?v) ?cs
      in if ok = [] then None else Some (concat ok))"
  proof (cases "length ?cs = 1 \<and> length (?cs ! 0) \<le> 5000")
    case True
    then obtain c where c: "?cs = [c]" by (cases ?cs) auto
    then have "script \<noteq> []" by auto
    with True c show ?thesis
      by (cases "generateSingleAudioChunk svc c ?v")
         (simp_all add: generateAudio_def Let_def map_filter_simps)
  next
    case False
    then show ?thesis
      by (cases "script = []")
         (auto simp: generateAudio_def Let_def audio_chunk_loop_eq combineAudioChunks_def map_filter_simps)
  qed
  show "sent (processVoiceOnly svc cfg script messageId remoteJid w) =
     sent w @ [case generateAudio svc cfg script of
                 None \<Rightarrow> TextDelivery remoteJid failed_voice
               | Some audio \<Rightarrow> AudioDelivery remoteJid audio False]"
    by (simp add: processVoiceOnly_def split: option.splits)
qed

lemma hello_chunks: "splitScriptIntoChunks (js ''hello'') = [js ''hello'']"
proof -
  have t: "trim (js ''hello'') = js ''hello''" by (simp add: js_def trim_def is_ws_def)
  have "js_split paragraph_rx (js ''hello'') = [js ''hello'']"
    by (rule js_split_single_paragraph) (simp add: js_def)
  from single_paragraph_chunk [OF this] t show ?thesis by (simp add: js_def)
qed

text \<open>
  Claim C9 says that a name found neither in the table nor by the voice service gets the
  default voice and a reply telling the user so. \<open>getVoiceId\<close> gives the identifier of
  the default voice for such a name, which is not empty, so the branch of
  \<open>processVoiceWithPerson\<close> that sends the notice is not taken: for the name \<open>zzz\<close>
  the only message sent is the audio, made with the default voice.
\<close>

theorem processVoiceWithPerson_unknown_voice:
  "map_of voiceMappings (trim (toLowerCase (js ''zzz''))) = None \<and>
   getVoiceId voice_services (js ''zzz'')
     = js ''1t3sfuW00ixjYR0WrUwv'' \<and>
   sent (processVoiceWithPerson
          voice_services
          example_config (js ''hello'') (js ''zzz'') (js ''MSG1'') (js ''user@s.whatsapp.net'')
          initial_world)
     = [AudioDelivery (js ''user@s.whatsapp.net'') (js ''1t3sfuW00ixjYR0WrUwv'') True]"
proof -
  let ?svc = "voice_services"
  have n: "trim (toLowerCase (js ''zzz'')) = js ''zzz''"
    by (simp add: js_def toLowerCase_def trim_def is_ws_def)
  have m: "map_of voiceMappings (js ''zzz'') = None"
    by (simp add: voiceMappings_def js_def)
  have g: "getVoiceId ?svc (js ''zzz'') = js ''1t3sfuW00ixjYR0WrUwv''"
    by (simp add: getVoiceId_def lowered_def inheritedProperties_def js_def toLowerCase_def
        voiceMappings_def voice_services_def trim_def is_ws_def)
  have a: "generateAudioWithVoice ?svc (js ''hello'') (js ''1t3sfuW00ixjYR0WrUwv'') = Some (js ''1t3sfuW00ixjYR0WrUwv'')"
    unfolding generateAudioWithVoice_def Let_def hello_chunks
    by (simp add: generateSingleAudioChunk_def js_def voice_services_def)
  have ne: "js ''1t3sfuW00ixjYR0WrUwv'' \<noteq> []" by (simp add: js_def)
  show ?thesis
    using n m g a ne by (simp add: processVoiceWithPerson_def Let_def initial_world_def)
qed

lemma currentHeadlines_processEditorial:
  "currentHeadlines (processEditorial svc cfg editorial messageId w) = currentHeadlines w"
  by (simp add: processEditorial_def Let_def split_def)

lemma currentHeadlines_processScriptOnly:
  "currentHeadlines (processScriptOnly svc cfg c messageId remoteJid w) = currentHeadlines w"
  by (simp add: processScriptOnly_def Let_def split_def)

lemma currentHeadlines_processVisualsOnly:
  "currentHeadlines (processVisualsOnly svc cfg c messageId remoteJid w) = currentHeadlines w"
  by (simp add: processVisualsOnly_def Let_def split_def)

lemma currentHeadlines_processVoiceOnly:
  "currentHeadlines (processVoiceOnly svc cfg c messageId remoteJid w) = currentHeadlines w"
  by (simp add: processVoiceOnly_def split: option.splits)

lemma currentHeadlines_processVoiceWithPerson:
  "currentHeadlines (processVoiceWithPerson svc cfg c voiceName messageId remoteJid w) = currentHeadlines w"
  by (simp add: processVoiceWithPerson_def Let_def currentHeadlines_processVoiceOnly split: option.splits)

lemma currentHeadlines_processHeadlineSelection:
  "currentHeadlines (processHeadlineSelection svc cfg number messageId remoteJid now w) = currentHeadlines w"
  by (simp add: processHeadlineSelection_def Let_def split_def split: option.splits)

text \<open>
  Claim C10. Selecting a headline never changes the headline store, whatever the outcome
  (session missing or expired, number out of range, script generated or not): an expired
  entry stays in the store. No command other than the agenda command changes it.
\<close>

theorem headline_store_unchanged:
  "currentHeadlines (processHeadlineSelection svc cfg number messageId remoteJid now w) = currentHeadlines w \<and>
   (cmd \<noteq> Agenda \<longrightarrow>
      currentHeadlines (handleCommand svc cfg cmd messageId remoteJid now w) = currentHeadlines w)"
  by (cases cmd)
     (simp_all add: currentHeadlines_processHeadlineSelection currentHeadlines_processEditorial
        currentHeadlines_processScriptOnly currentHeadlines_processVisualsOnly
        currentHeadlines_processVoiceOnly currentHeadlines_processVoiceWithPerson)

theorem headline_store_unchanged_witness:
  "Number 3 \<noteq> Agenda \<and>
   currentHeadlines
     (handleCommand (answering None)
        example_config (Number 3) (js ''MSG2'') (js ''user@s.whatsapp.net'') 3900000
        (initial_world\<lparr>currentHeadlines :=
           [js ''user@s.whatsapp.net'' \<mapsto> \<lparr>headlines = [js ''1. one''], timestamp = 0\<rparr>]\<rparr>))
     (js ''user@s.whatsapp.net'')
   = Some \<lparr>headlines = [js ''1. one''], timestamp = 0\<rparr>"
  using headline_store_unchanged [where cmd = "Number 3"
      and svc = "answering None"
      and cfg = example_config and messageId = "js ''MSG2''" and remoteJid = "js ''user@s.whatsapp.net''"
      and now = 3900000
      and w = "initial_world\<lparr>currentHeadlines :=
           [js ''user@s.whatsapp.net'' \<mapsto> \<lparr>headlines = [js ''1. one''], timestamp = 0\<rparr>]\<rparr>"]
  by simp

text \<open>
  Claim C5. After an agenda command has stored the headlines of a channel at time
  \<open>t0\<close>, a selection at a time \<open>t1\<close> more than 3600000 ms later gets the
  instruction to ask for the agenda first, and no prompt goes to the text service; a
  selection 59 minutes later, with a number within the list, submits the prompt built
  from the selected headline without its number and replies with the result. A channel
  with no session gets the same instruction as one whose session has expired.
\<close>

theorem headline_session_expiry:
  "(truthy (fst (callHeadlinesAPI svc cfg w0)) \<and>
    w1 = processAgenda svc cfg agendaId remoteJid t0 w0 \<and>
    w2 = processHeadlineSelection svc cfg number messageId remoteJid t1 w1 \<longrightarrow>
      (t1 - t0 > 3600000 \<longrightarrow>
         sent w2 = sent w1 @ [TextDelivery remoteJid no_recent_headlines] \<and> asked w2 = asked w1) \<and>
      (t1 - t0 = 3540000 \<and> 1 \<le> number \<and>
       number \<le> length (headlines (the (currentHeadlines w1 remoteJid))) \<longrightarrow>
         (let headlineText = remove_first number_prefix_rx []
                               (headlines (the (currentHeadlines w1 remoteJid)) ! (number - 1));
              prompt = MASTER_PROMPT cfg @ [10, 10] @ js ''Base News Item: '' @
                       MASTER_PROMPT cfg @ [10, 10] @ js ''Base News Item (Headline '' @
                       decimal number @ js ''): '' @ headlineText
          in asked w2 = asked w1 @ [prompt] \<and>
             sent w2 = sent w1 @
               [TextDelivery remoteJid
                  (if truthy (chat_completion svc prompt) then the (chat_completion svc prompt)
                   else failed_script)]))) \<and>
   (currentHeadlines w remoteJid = None \<longrightarrow>
      sent (processHeadlineSelection svc cfg number messageId remoteJid now w) =
        sent w @ [TextDelivery remoteJid no_recent_headlines] \<and>
      asked (processHeadlineSelection svc cfg number messageId remoteJid now w) = asked w)"
proof (intro conjI impI)
  assume a: "truthy (fst (callHeadlinesAPI svc cfg w0)) \<and>
    w1 = processAgenda svc cfg agendaId remoteJid t0 w0 \<and>
    w2 = processHeadlineSelection svc cfg number messageId remoteJid t1 w1"
  then have s: "\<exists>hs. currentHeadlines w1 remoteJid = Some \<lparr>headlines = hs, timestamp = t0\<rparr>"
    by (simp add: processAgenda_def Let_def split_def send_def)
  {
    assume "t1 - t0 > 3600000"
    with a s show "sent w2 = sent w1 @ [TextDelivery remoteJid no_recent_headlines]"
      and "asked w2 = asked w1"
      by (auto simp: processHeadlineSelection_def)
  }
  {
    assume b: "t1 - t0 = 3540000 \<and> 1 \<le> number \<and>
       number \<le> length (headlines (the (currentHeadlines w1 remoteJid)))"
    with a s show "let headlineText = remove_first number_prefix_rx []
                               (headlines (the (currentHeadlines w1 remoteJid)) ! (number - 1));
              prompt = MASTER_PROMPT cfg @ [10, 10] @ js ''Base News Item: '' @
                       MASTER_PROMPT cfg @ [10, 10] @ js ''Base News Item (Headline '' @
                       decimal number @ js ''): '' @ headlineText
          in asked w2 = asked w1 @ [prompt] \<and>
             sent w2 = sent w1 @
               [TextDelivery remoteJid
                  (if truthy (chat_completion svc prompt) then the (chat_completion svc prompt)
                   else failed_script)]"
      by (auto simp: processHeadlineSelection_def Let_def split_def callPerplexityAPI_def)
  }
next
  assume "currentHeadlines w remoteJid = None"
  then show "sent (processHeadlineSelection svc cfg number messageId remoteJid now w) =
        sent w @ [TextDelivery remoteJid no_recent_headlines]"
    and "asked (processHeadlineSelection svc cfg number messageId remoteJid now w) = asked w"
    by (simp_all add: processHeadlineSelection_def)
qed


theorem headline_session_expiry_witness:
  "truthy (fst (callHeadlinesAPI
      agenda_services example_config initial_world)) \<and>
   sent (processHeadlineSelection
      agenda_services example_config 2 (js ''MSG2'') (js ''user@s.whatsapp.net'') 3900000
      (processAgenda
         agenda_services example_config (js ''MSG1'') (js ''user@s.whatsapp.net'') 0 initial_world))
     = [TextDelivery (js ''user@s.whatsapp.net'') (js ''1. Floods'' @ [10] @ js ''2. Budget''),
        TextDelivery (js ''user@s.whatsapp.net'') no_recent_headlines] \<and>
   sent (processHeadlineSelection
      agenda_services example_config 2 (js ''MSG2'') (js ''user@s.whatsapp.net'') 3540000
      (processAgenda
         agenda_services example_config (js ''MSG1'') (js ''user@s.whatsapp.net'') 0 initial_world))
     = [TextDelivery (js ''user@s.whatsapp.net'') (js ''1. Floods'' @ [10] @ js ''2. Budget''),
        TextDelivery (js ''user@s.whatsapp.net'') (js ''SCRIPT'')] \<and>
   asked (processHeadlineSelection
      agenda_services example_config 2 (js ''MSG2'') (js ''user@s.whatsapp.net'') 3540000
      (processAgenda
         agenda_services example_config (js ''MSG1'') (js ''user@s.whatsapp.net'') 0 initial_world))
     = [js ''Provide exactly 10 current top headlines.'',
        js ''You are a professional scriptwriter.'' @ [10, 10] @ js ''Base News Item: '' @
        js ''You are a professional scriptwriter.'' @ [10, 10] @ js ''Base News Item (Headline 2): Budget''] \<and>
   sent (processHeadlineSelection
      agenda_services example_config 2 (js ''MSG2'') (js ''user@s.whatsapp.net'') 0 initial_world)
     = [TextDelivery (js ''user@s.whatsapp.net'') no_recent_headlines]"
proof -
  let ?hp = "js ''Provide exactly 10 current top headlines.''"
  let ?ag = "js ''1. Floods'' @ [10] @ js ''2. Budget''"
  let ?svc = agenda_services
  let ?jid = "js ''user@s.whatsapp.net''"
  let ?w1 = "processAgenda ?svc example_config (js ''MSG1'') ?jid 0 initial_world"
  let ?prompt = "js ''You are a professional scriptwriter.'' @ [10, 10] @ js ''Base News Item: '' @
        js ''You are a professional scriptwriter.'' @ [10, 10] @ js ''Base News Item (Headline 2): Budget''"
  have call: "callHeadlinesAPI ?svc example_config initial_world = (Some ?ag, initial_world\<lparr>asked := [?hp]\<rparr>)"
    by (simp add: callHeadlinesAPI_def example_config_def initial_world_def agenda_services_def)
  have tr: "truthy (fst (callHeadlinesAPI ?svc example_config initial_world))"
    unfolding call by (simp add: js_def)
  have lines: "filter (\<lambda>line. js_match numbered_rx line \<noteq> None) (split_on 10 [] ?ag) = [js ''1. Floods'', js ''2. Budget'']"
    by (simp add: js_def js_match_def match_at_def numbered_rx_def is_digit_def)
  have w1: "?w1 = initial_world\<lparr>asked := [?hp],
              currentHeadlines := [?jid \<mapsto> \<lparr>headlines = [js ''1. Floods'', js ''2. Budget''], timestamp = 0\<rparr>],
              sent := [TextDelivery ?jid ?ag]\<rparr>"
    unfolding processAgenda_def call Let_def split_conv using tr lines
    by (simp add: send_def initial_world_def call)
  have s1: "sent ?w1 = [TextDelivery ?jid ?ag]" and a1: "asked ?w1 = [?hp]"
    and h1: "currentHeadlines ?w1 ?jid = Some \<lparr>headlines = [js ''1. Floods'', js ''2. Budget''], timestamp = 0\<rparr>"
    unfolding w1 by simp_all
  have rf: "remove_first number_prefix_rx [] (js ''2. Budget'') = js ''Budget''"
    by (simp add: js_def match_at_def number_prefix_rx_def is_digit_def is_ws_def)
  have d2: "decimal 2 = js ''2''" by (simp add: decimal.simps js_def)
  have pr: "MASTER_PROMPT example_config @ [10, 10] @ js ''Base News Item: '' @
            MASTER_PROMPT example_config @ [10, 10] @ js ''Base News Item (Headline '' @
            decimal 2 @ js ''): '' @ js ''Budget'' = ?prompt"
    unfolding d2 by (simp add: example_config_def js_def)
  have cc: "chat_completion ?svc ?prompt = Some (js ''SCRIPT'')"
    by (simp add: js_def agenda_services_def)
  have e: "sent (processHeadlineSelection ?svc example_config 2 (js ''MSG2'') ?jid 3900000 ?w1)
             = [TextDelivery ?jid ?ag, TextDelivery ?jid no_recent_headlines]"
    using headline_session_expiry [where svc = ?svc and cfg = example_config and ?w0.0 = initial_world
        and agendaId = "js ''MSG1''" and remoteJid = ?jid and ?t0.0 = 0 and ?t1.0 = 3900000 and number = 2
        and messageId = "js ''MSG2''" and ?w1.0 = ?w1
        and ?w2.0 = "processHeadlineSelection ?svc example_config 2 (js ''MSG2'') ?jid 3900000 ?w1"] tr s1
    by simp
  have hl: "headlines (the (currentHeadlines ?w1 ?jid)) ! (2 - 1) = js ''2. Budget''"
    unfolding h1 by simp
  have p2: "(3540000::int) - 0 = 3540000 \<and> (1::nat) \<le> 2 \<and>
            2 \<le> length (headlines (the (currentHeadlines ?w1 ?jid)))"
    unfolding h1 by simp
  let ?w2 = "processHeadlineSelection ?svc example_config 2 (js ''MSG2'') ?jid 3540000 ?w1"
  note inst = headline_session_expiry [where svc = ?svc and cfg = example_config and ?w0.0 = initial_world
        and agendaId = "js ''MSG1''" and remoteJid = ?jid and ?t0.0 = 0 and ?t1.0 = 3540000 and number = 2
        and messageId = "js ''MSG2''" and ?w1.0 = ?w1 and ?w2.0 = ?w2]
  from inst tr p2 have
    "let headlineText = remove_first number_prefix_rx []
                               (headlines (the (currentHeadlines ?w1 ?jid)) ! (2 - 1));
         prompt = MASTER_PROMPT example_config @ [10, 10] @ js ''Base News Item: '' @
                  MASTER_PROMPT example_config @ [10, 10] @ js ''Base News Item (Headline '' @
                  decimal 2 @ js ''): '' @ headlineText
     in asked ?w2 = asked ?w1 @ [prompt] \<and>
        sent ?w2 = sent ?w1 @
          [TextDelivery ?jid
             (if truthy (chat_completion ?svc prompt) then the (chat_completion ?svc prompt)
              else failed_script)]"
    by blast
  then have f: "asked ?w2 = [?hp, ?prompt] \<and> sent ?w2 = [TextDelivery ?jid ?ag, TextDelivery ?jid (js ''SCRIPT'')]"
    unfolding Let_def hl rf pr cc s1 a1 by (simp add: js_def)
  have g: "sent (processHeadlineSelection ?svc example_config 2 (js ''MSG2'') ?jid 0 initial_world)
             = [TextDelivery ?jid no_recent_headlines]"
    using headline_session_expiry [where svc = ?svc and cfg = example_config and w = initial_world
        and remoteJid = ?jid and number = 2 and messageId = "js ''MSG2''" and now = 0]
    by (simp add: initial_world_def)
  from tr e f g show ?thesis by blast
qed

lemma handleIncomingMessages_editorial:
  assumes "\<not> key_fromMe message" and "\<not> audioMessage message"
    and "message_text message = Some editorial" and "trim editorial \<noteq> []"
    and "parseCommand editorial = None" and "key_remoteJid message = groupJIDs_content w"
  shows "handleIncomingMessages svc cfg message now w =
         processEditorial svc cfg editorial (key_id message) w"
proof -
  from assms(4) have "editorial \<noteq> []" by auto
  with assms show ?thesis by (simp add: handleIncomingMessages_def)
qed

lemma handleIncomingMessages_command:
  assumes "\<not> key_fromMe message" and "\<not> audioMessage message"
    and "message_text message = Some t" and "parseCommand t = Some cmd"
  shows "handleIncomingMessages svc cfg message now w =
         handleCommand svc cfg cmd (key_id message) (key_remoteJid message) now w"
proof -
  have "trim t \<noteq> []"
  proof
    assume e: "trim t = []"
    have "parseCommand t = None"
      unfolding parseCommand_def Let_def e
      by (simp add: js_match_def match_at_def keyword_rx_def voice_person_rx_def agenda_rx_def
          number_rx_def lit_i_def js_def)
    with assms(4) show False by simp
  qed
  moreover from this have "t \<noteq> []" by auto
  ultimately show ?thesis using assms by (simp add: handleIncomingMessages_def)
qed

lemma currentHeadlines_handleIncomingMessages:
  assumes "\<forall>t. message_text message = Some t \<longrightarrow> parseCommand t \<noteq> Some Agenda"
  shows "currentHeadlines (handleIncomingMessages svc cfg message now w) = currentHeadlines w"
proof -
  have c: "cmd \<noteq> Agenda \<Longrightarrow>
      currentHeadlines (handleCommand svc cfg cmd i j now w) = currentHeadlines w" for cmd i j
    by (cases cmd)
       (simp_all add: currentHeadlines_processHeadlineSelection currentHeadlines_processEditorial
        currentHeadlines_processScriptOnly currentHeadlines_processVisualsOnly
        currentHeadlines_processVoiceOnly currentHeadlines_processVoiceWithPerson)
  show ?thesis
    using assms
    by (cases "message_text message")
       (auto simp: handleIncomingMessages_def handleVoiceMessage_def Let_def c
          currentHeadlines_processEditorial split: option.splits)
qed

end
